theory Spec2Isabelle
  imports Complex_Main "HOL-Library.Sublist" "HOL-Library.Log_Nat"
begin

section \<open>JavaScript values used by \<^verbatim>\<open>src/index.js\<close>\<close>

subsection \<open>Integers as strings\<close>

text \<open>
  \<^verbatim>\<open>String(n)\<close> and the template literal \<^verbatim>\<open>`${n}`\<close> render a non-negative integer
  below \<open>10^21\<close> in decimal, without leading zeros. The counter \<^verbatim>\<open>idCounter\<close> is a
  JavaScript number that only ever holds a non-negative integer; the model keeps that
  integer as a natural number and computes \<^verbatim>\<open>idCounter++\<close> with the rounding of doubles
  (\<open>increment\<close> below).
\<close>

definition digit :: "nat \<Rightarrow> char" where
  "digit d = ''0123456789'' ! d"

fun String_num :: "nat \<Rightarrow> string" where
  "String_num n = (if n < 10 then [digit n] else String_num (n div 10) @ [digit (n mod 10)])"

declare String_num.simps [simp del]

text \<open>Reading a decimal numeral back: the numeric value of a string of digits.\<close>

definition digit_val :: "char \<Rightarrow> nat" where
  "digit_val c = of_char c - 48"

definition is_digit :: "char \<Rightarrow> bool" where
  "is_digit c = (48 \<le> (of_char c :: nat) \<and> (of_char c :: nat) \<le> 57)"

definition digits_val :: "string \<Rightarrow> nat" where
  "digits_val s = foldl (\<lambda>a c. 10 * a + digit_val c) 0 s"

definition parse_digits :: "string \<Rightarrow> nat option" where
  "parse_digits s = (if s \<noteq> [] \<and> list_all is_digit s then Some (digits_val s) else None)"

subsection \<open>Doubles\<close>

text \<open>
  A finite double is the rational it denotes. \<open>fl x\<close> is the double nearest to \<open>x\<close>
  (IEEE 754 binary64, round to nearest, ties to even): 53 significant bits, the
  spacing of subnormals below \<open>2^-1022\<close>. It is what a numeric literal, an arithmetic
  operation and \<^verbatim>\<open>Number(string)\<close> return for the exact value \<open>x\<close>, as long as
  \<open>\<bar>x\<bar>\<close> stays below the overflow threshold \<open>2^1024\<close> (every value below does).
\<close>

definition round_half_even :: "rat \<Rightarrow> int" where
  "round_half_even x =
     (let f = \<lfloor>x\<rfloor>; d = x - of_int f
      in if d < 1 / 2 then f else if 1 / 2 < d then f + 1 else if even f then f else f + 1)"

definition pow2 :: "int \<Rightarrow> rat" where
  "pow2 e = (if 0 \<le> e then 2 ^ nat e else 1 / 2 ^ nat (- e))"

definition exponent :: "rat \<Rightarrow> int" where
  "exponent x =
     (let (p, q) = quotient_of \<bar>x\<bar>; e = bitlen p - bitlen q
      in if pow2 e \<le> \<bar>x\<bar> then e else e - 1)"

definition fl :: "rat \<Rightarrow> rat" where
  "fl x = (let u = max (exponent x) (- 1022) - 52
           in of_int (round_half_even (x / pow2 u)) * pow2 u)"

text \<open>
  The value that \<^verbatim>\<open>c++\<close> stores for a counter holding the integer \<open>c\<close>: the double
  nearest to \<open>c + 1\<close>. That is \<open>c + 1\<close> below \<open>2^53\<close>; at \<open>2^53\<close> the sum is not a
  double and rounds back to \<open>2^53\<close> (lemma \<open>increment_cap\<close>).
\<close>

definition increment :: "nat \<Rightarrow> nat" where
  "increment c = nat \<lfloor>fl (of_nat c + 1)\<rfloor>"

text \<open>
  \<^verbatim>\<open>x.toFixed(f)\<close> for a finite \<open>\<bar>x\<bar> < 10^21\<close> (ECMAScript, Number.prototype.toFixed):
  \<open>n\<close> is the integer for which \<open>n / 10^f - x\<close> is closest to zero, the larger one of
  two; its digits are padded with zeros to \<open>f + 1\<close> characters and the point is put
  before the last \<open>f\<close>.
\<close>

definition toFixed :: "nat \<Rightarrow> rat \<Rightarrow> string" where
  "toFixed f x =
     (let s = (if x < 0 then ''-'' else []);
          n = nat \<lfloor>\<bar>x\<bar> * 10 ^ f + 1 / 2\<rfloor>;
          m = String_num n;
          m = (if f \<noteq> 0 \<and> length m \<le> f then replicate (f + 1 - length m) (CHR ''0'') @ m else m);
          k = length m
      in s @ (if f \<noteq> 0 then take (k - f) m @ ''.'' @ drop (k - f) m else m))"

text \<open>
  \<^verbatim>\<open>Number(s)\<close> on a decimal numeral: digits, or digits, a point and digits, with an
  optional minus sign. The result is the double nearest to its value. Every other
  string is outside this model (\<open>None\<close>, as for \<^verbatim>\<open>NaN\<close>): \<open>toFixed\<close> produces none.
\<close>

definition decimal_val :: "string \<Rightarrow> rat option" where
  "decimal_val s =
     (let a = takeWhile (\<lambda>c. c \<noteq> CHR ''.'') s; r = dropWhile (\<lambda>c. c \<noteq> CHR ''.'') s
      in if r = [] then map_option of_nat (parse_digits a)
         else (case (parse_digits a, parse_digits (tl r)) of
                 (Some i, Some fr) \<Rightarrow> Some (of_nat i + of_nat fr / 10 ^ length (tl r))
               | _ \<Rightarrow> None))"

definition Number_str :: "string \<Rightarrow> rat option" where
  "Number_str s =
     (case s of
        [] \<Rightarrow> None
      | c # t \<Rightarrow> if c = CHR ''-'' then map_option (\<lambda>v. fl (- v)) (decimal_val t)
                 else map_option fl (decimal_val s))"

subsection \<open>The payload types of the schema (\<^verbatim>\<open>typeDefs\<close>, lines 12 to 32)\<close>

text \<open>
  \<^verbatim>\<open>createdAt\<close> and \<^verbatim>\<open>updatedAt\<close> hold \<^verbatim>\<open>new Date().toISOString()\<close>; the model keeps
  the instant read from the clock (milliseconds since the epoch), of which the ISO string
  is the rendering. \<^verbatim>\<open>load\<close> is a JavaScript number: \<open>Some\<close> of the rational
  value of the double, or \<open>None\<close> for \<^verbatim>\<open>NaN\<close>.
\<close>

record message =
  id' :: string
  text' :: string
  createdAt :: nat
  author :: string
  channel :: string
  important :: bool
  tags :: "string list"

record SystemStatus =
  online :: bool
  load :: "rat option"
  updatedAt :: nat

record Settings =
  theme :: string
  lang :: string
  updatedAt :: nat

text \<open>The object handed to \<^verbatim>\<open>pubsub.publish\<close>: one field, named after the subscription.\<close>

datatype payload =
  messageAdded message
| systemStatusChanged SystemStatus
| settingsUpdated Settings

definition MESSAGE_ADDED :: string where
  "MESSAGE_ADDED = ''MESSAGE_ADDED''"

definition SYSTEM_STATUS_CHANGED :: string where
  "SYSTEM_STATUS_CHANGED = ''SYSTEM_STATUS_CHANGED''"

definition SETTINGS_UPDATED :: string where
  "SETTINGS_UPDATED = ''SETTINGS_UPDATED''"

section \<open>The publish/subscribe registry\<close>

text \<open>
  \<^verbatim>\<open>index.js\<close> creates one \<^verbatim>\<open>PubSub\<close> of the package graphql-subscriptions and only
  calls \<^verbatim>\<open>publish\<close> and \<^verbatim>\<open>asyncIterator\<close> on it; the class itself is not part of the
  repository. The registry below follows the specification of the Topic Registry.
\<close>

text \<open>
  Modelled from the spec: the \<^verbatim>\<open>PubSub\<close> object (Topic Registry, Event Channel and
  Subscriber Queue of the specification). A subscription is a handle, its topic and its
  queue of pending events; the registry keeps the subscriptions in registration order.
\<close>

type_synonym subscription = "nat \<times> string \<times> payload list"

record PubSub =
  subscriptions :: "subscription list"
  nextHandle :: nat

text \<open>
  Modelled from the spec: \<open>subscribe(topic)\<close> creates a new, empty queue registered
  under the topic and never fails.
\<close>

definition asyncIterator :: "string \<Rightarrow> PubSub \<Rightarrow> nat \<times> PubSub" where
  "asyncIterator T ps =
     (nextHandle ps,
      ps\<lparr>subscriptions := subscriptions ps @ [(nextHandle ps, T, [])],
         nextHandle := nextHandle ps + 1\<rparr>)"

text \<open>
  Modelled from the spec: \<open>publish(topic, payload)\<close> delivers the payload to every queue
  currently registered under the topic, in registration order; with no subscriber it
  does nothing.
\<close>

definition deliver :: "string \<Rightarrow> payload \<Rightarrow> subscription \<Rightarrow> subscription" where
  "deliver T p sub = (case sub of (h, T', q) \<Rightarrow> if T' = T then (h, T', q @ [p]) else sub)"

definition publish :: "string \<Rightarrow> payload \<Rightarrow> PubSub \<Rightarrow> PubSub" where
  "publish T p ps = ps\<lparr>subscriptions := map (deliver T p) (subscriptions ps)\<rparr>"

text \<open>
  Modelled from the spec: a subscription consumes from the front of its queue; on an
  empty queue (or a handle that is not registered) the consumer stays suspended and
  nothing is delivered.
\<close>

fun pop :: "nat \<Rightarrow> subscription list \<Rightarrow> payload option \<times> subscription list" where
  "pop h [] = (None, [])"
| "pop h ((h', T, q) # subs) =
     (if h' = h then (case q of [] \<Rightarrow> (None, (h', T, q) # subs)
                              | p # q' \<Rightarrow> (Some p, (h', T, q') # subs))
      else (case pop h subs of (r, subs') \<Rightarrow> (r, (h', T, q) # subs')))"

definition next_event :: "nat \<Rightarrow> PubSub \<Rightarrow> payload option \<times> PubSub" where
  "next_event h ps =
     (case pop h (subscriptions ps) of (r, subs) \<Rightarrow> (r, ps\<lparr>subscriptions := subs\<rparr>))"

text \<open>Modelled from the spec: \<open>unsubscribe(handle)\<close> removes the queue; it is idempotent.\<close>

definition unsubscribe :: "nat \<Rightarrow> PubSub \<Rightarrow> PubSub" where
  "unsubscribe h ps = ps\<lparr>subscriptions := filter (\<lambda>sub. fst sub \<noteq> h) (subscriptions ps)\<rparr>"

section \<open>The server (\<^verbatim>\<open>src/index.js\<close>)\<close>

subsection \<open>Arguments of the mutation (\<^verbatim>\<open>typeDefs\<close>, lines 38 to 46)\<close>

text \<open>
  A caller supplies \<^verbatim>\<open>sendMessage\<close> with a list of named argument values. Before the
  resolver is called, the GraphQL layer checks that list against the signature declared
  in \<^verbatim>\<open>typeDefs\<close> and coerces it (input coercion of the GraphQL specification): every
  argument given must be declared, and given once; a \<^verbatim>\<open>String\<close> takes a string value
  only and a \<^verbatim>\<open>Boolean\<close> a boolean only; \<^verbatim>\<open>[String!]\<close> takes a list of strings, or one
  string, which stands for the list of that string; an argument without \<^verbatim>\<open>!\<close> may be
  \<^verbatim>\<open>null\<close>, and takes its default when it is left out; \<^verbatim>\<open>text: String!\<close> has no default
  and must be given, and not as \<^verbatim>\<open>null\<close>. A call that fails the check is answered with
  an error and the resolver does not run. The rest of the request (its syntax, the
  fields selected from the result) is outside the model.
\<close>

datatype gql_value =
  NullValue
| IntValue int
| FloatValue rat
| StringValue string
| BooleanValue bool
| EnumValue string
| ListValue "gql_value list"
| ObjectValue "(string \<times> gql_value) list"

type_synonym arguments = "(string \<times> gql_value) list"

text \<open>What the resolver receives; \<open>None\<close> is \<^verbatim>\<open>null\<close>.\<close>

record sendMessage_args =
  text_arg :: string
  author_arg :: "string option"
  channel_arg :: "string option"
  important_arg :: "bool option"
  tags_arg :: "string list option"

datatype error = ValidationError

fun coerce_String :: "gql_value \<Rightarrow> string option" where
  "coerce_String (StringValue s) = Some s"
| "coerce_String _ = None"

fun coerce_Boolean :: "gql_value \<Rightarrow> bool option" where
  "coerce_Boolean (BooleanValue b) = Some b"
| "coerce_Boolean _ = None"

fun coerce_items :: "gql_value list \<Rightarrow> string list option" where
  "coerce_items [] = Some []"
| "coerce_items (v # vs) =
     (case coerce_String v of
        None \<Rightarrow> None
      | Some s \<Rightarrow> map_option ((#) s) (coerce_items vs))"

fun coerce_String_list :: "gql_value \<Rightarrow> string list option" where
  "coerce_String_list (ListValue vs) = coerce_items vs"
| "coerce_String_list v = map_option (\<lambda>s. [s]) (coerce_String v)"

text \<open>
  An argument without \<^verbatim>\<open>!\<close>: the outer \<open>None\<close> is a value that does not fit, the inner
  one is \<^verbatim>\<open>null\<close>.
\<close>

definition optional ::
  "(gql_value \<Rightarrow> 'a option) \<Rightarrow> 'a \<Rightarrow> gql_value option \<Rightarrow> 'a option option" where
  "optional coerce dflt v =
     (case v of
        None \<Rightarrow> Some (Some dflt)
      | Some x \<Rightarrow> if x = NullValue then Some None else map_option Some (coerce x))"

definition declared_arguments :: "string list" where
  "declared_arguments = [''text'', ''author'', ''channel'', ''important'', ''tags'']"

definition coerce_args :: "arguments \<Rightarrow> error + sendMessage_args" where
  "coerce_args i =
     (if \<not> distinct (map fst i) \<or> \<not> list_all (\<lambda>n. n \<in> set declared_arguments) (map fst i)
      then Inl ValidationError
      else
        (case (case map_of i ''text'' of None \<Rightarrow> None | Some v \<Rightarrow> coerce_String v,
               optional coerce_String ''user'' (map_of i ''author''),
               optional coerce_String ''general'' (map_of i ''channel''),
               optional coerce_Boolean False (map_of i ''important''),
               optional coerce_String_list [] (map_of i ''tags'')) of
           (Some t, Some a, Some c, Some b, Some ts) \<Rightarrow>
             Inr \<lparr>text_arg = t, author_arg = a, channel_arg = c, important_arg = b,
                  tags_arg = ts\<rparr>
         | _ \<Rightarrow> Inl ValidationError))"

text \<open>
  The signature of \<^verbatim>\<open>sendMessage\<close> in words, as a condition on the arguments supplied:
  only declared arguments, none of them twice; \<^verbatim>\<open>text\<close> given as a string; \<^verbatim>\<open>author\<close>
  and \<^verbatim>\<open>channel\<close>, where given, a string or \<^verbatim>\<open>null\<close>; \<^verbatim>\<open>important\<close>, where given, a
  boolean or \<^verbatim>\<open>null\<close>; \<^verbatim>\<open>tags\<close>, where given, \<^verbatim>\<open>null\<close>, a string or a list of strings.
\<close>

fun is_String :: "gql_value \<Rightarrow> bool" where
  "is_String (StringValue s) = True"
| "is_String _ = False"

fun is_Boolean :: "gql_value \<Rightarrow> bool" where
  "is_Boolean (BooleanValue b) = True"
| "is_Boolean _ = False"

fun is_String_list :: "gql_value \<Rightarrow> bool" where
  "is_String_list (ListValue vs) = list_all is_String vs"
| "is_String_list v = is_String v"

definition fits_signature :: "arguments \<Rightarrow> bool" where
  "fits_signature i =
     (distinct (map fst i)
      \<and> set (map fst i) \<subseteq> {''text'', ''author'', ''channel'', ''important'', ''tags''}
      \<and> (case map_of i ''text'' of None \<Rightarrow> False | Some v \<Rightarrow> is_String v)
      \<and> (case map_of i ''author'' of None \<Rightarrow> True | Some v \<Rightarrow> v = NullValue \<or> is_String v)
      \<and> (case map_of i ''channel'' of None \<Rightarrow> True | Some v \<Rightarrow> v = NullValue \<or> is_String v)
      \<and> (case map_of i ''important'' of None \<Rightarrow> True | Some v \<Rightarrow> v = NullValue \<or> is_Boolean v)
      \<and> (case map_of i ''tags'' of None \<Rightarrow> True | Some v \<Rightarrow> v = NullValue \<or> is_String_list v))"

subsection \<open>State\<close>

text \<open>
  The module-level state: \<^verbatim>\<open>idCounter\<close> (line 60) and \<^verbatim>\<open>pubsub\<close> (line 55). An
  \<^verbatim>\<open>async\<close> function runs without interruption up to its \<^verbatim>\<open>await\<close> and is resumed
  later by the event loop; \<open>awaiting\<close> holds the \<^verbatim>\<open>sendMessage\<close> handlers suspended at
  \<^verbatim>\<open>await pubsub.publish(...)\<close> (line 78), each with the request it answers and its
  local \<^verbatim>\<open>message\<close>.
\<close>

record server =
  idCounter :: nat
  pubsub :: PubSub
  awaiting :: "(nat \<times> message) list"

definition init_server :: server where
  "init_server = \<lparr>idCounter = 1, pubsub = \<lparr>subscriptions = [], nextHandle = 0\<rparr>, awaiting = []\<rparr>"

subsection \<open>The resolver \<^verbatim>\<open>Mutation.sendMessage\<close> (lines 67 to 80)\<close>

text \<open>
  \<open>sendMessage\<close> is the part before the \<^verbatim>\<open>await\<close>: it builds \<^verbatim>\<open>message\<close> (the
  post-increment gives the old counter to \<^verbatim>\<open>id\<close>), calls \<^verbatim>\<open>pubsub.publish\<close> and
  suspends. \<open>now\<close> is the clock read by \<^verbatim>\<open>new Date()\<close>. The resolver destructures
  \<^verbatim>\<open>{ text }\<close> only. The part after the \<^verbatim>\<open>await\<close> is \<^verbatim>\<open>return message\<close>.
\<close>

definition sendMessage :: "sendMessage_args \<Rightarrow> nat \<Rightarrow> server \<Rightarrow> message \<times> server" where
  "sendMessage args now s =
     (let message = \<lparr>id' = String_num (idCounter s),
                      text' = text_arg args,
                      createdAt = now,
                      author = ''user'',
                      channel = ''general'',
                      important = False,
                      tags = []\<rparr>;
          s = s\<lparr>idCounter := increment (idCounter s)\<rparr>
      in (message, s\<lparr>pubsub := publish MESSAGE_ADDED (messageAdded message) (pubsub s)\<rparr>))"

subsection \<open>The three generators (lines 140 to 171)\<close>



definition messageGenerator :: "nat \<Rightarrow> server \<Rightarrow> message \<times> server" where
  "messageGenerator now s =
     (let i = String_num (idCounter s);
          s = s\<lparr>idCounter := increment (idCounter s)\<rparr>;
          message = \<lparr>id' = i,
                      text' = ''Server message #'' @ String_num (idCounter s),
                      createdAt = now,
                      author = ''server'',
                      channel = ''news'',
                      important = False,
                      tags = [''auto'']\<rparr>
      in (message, s\<lparr>pubsub := publish MESSAGE_ADDED (messageAdded message) (pubsub s)\<rparr>))"

definition statusGenerator :: "rat \<Rightarrow> nat \<Rightarrow> server \<Rightarrow> SystemStatus \<times> server" where
  "statusGenerator r now s =
     (let status = \<lparr>online = True,
                     load = Number_str (toFixed 2 (fl (fl (r * fl (15 / 10)) + fl (1 / 10)))),
                     updatedAt = now\<rparr>
      in (status, s\<lparr>pubsub := publish SYSTEM_STATUS_CHANGED (systemStatusChanged status) (pubsub s)\<rparr>))"

definition settingsGenerator :: "rat \<Rightarrow> rat \<Rightarrow> nat \<Rightarrow> server \<Rightarrow> Settings \<times> server" where
  "settingsGenerator r1 r2 now s =
     (let settings = \<lparr>theme = (if r1 > fl (5 / 10) then ''dark'' else ''light''),
                       lang = (if r2 > fl (5 / 10) then ''ja'' else ''en''),
                       updatedAt = now\<rparr>
      in (settings, s\<lparr>pubsub := publish SETTINGS_UPDATED (settingsUpdated settings) (pubsub s)\<rparr>))"

subsection \<open>Subscriptions (\<^verbatim>\<open>resolvers.Subscription\<close>, lines 82 to 93)\<close>

datatype subscription_field = messageAdded_field | systemStatusChanged_field | settingsUpdated_field

definition trigger :: "subscription_field \<Rightarrow> string" where
  "trigger f = (case f of messageAdded_field \<Rightarrow> MESSAGE_ADDED
                | systemStatusChanged_field \<Rightarrow> SYSTEM_STATUS_CHANGED
                | settingsUpdated_field \<Rightarrow> SETTINGS_UPDATED)"

definition subscribe :: "subscription_field \<Rightarrow> server \<Rightarrow> nat \<times> server" where
  "subscribe f s = (case asyncIterator (trigger f) (pubsub s) of (h, ps) \<Rightarrow> (h, s\<lparr>pubsub := ps\<rparr>))"

subsection \<open>The event loop\<close>

text \<open>
  JavaScript runs one callback at a time, each to its end or to its next \<^verbatim>\<open>await\<close>.
  A run of the process is therefore a sequence of events, in any order: a
  \<^verbatim>\<open>sendMessage\<close> request (request id, arguments, clock), the resumption of a suspended
  handler, a tick of one of the three timers, a subscription being started, pulled or
  stopped by a connection. Every step reports what it did.
\<close>

datatype event =
  Call nat arguments nat
| Resume nat
| TickMessage nat
| TickStatus rat nat
| TickSettings rat rat nat
| Subscribe subscription_field
| Next nat
| Complete nat

datatype action =
  Published string payload
| Returned nat message
| Rejected nat error
| Subscribed nat
| Delivered nat payload

fun step :: "server \<Rightarrow> event \<Rightarrow> server \<times> action list" where
  "step s (Call rid i now) =
     (case coerce_args i of
        Inl e \<Rightarrow> (s, [Rejected rid e])
      | Inr args \<Rightarrow>
          (case sendMessage args now s of
             (m, s') \<Rightarrow> (s'\<lparr>awaiting := awaiting s' @ [(rid, m)]\<rparr>,
                         [Published MESSAGE_ADDED (messageAdded m)])))"
| "step s (Resume k) =
     (if k < length (awaiting s)
      then (case awaiting s ! k of
              (rid, m) \<Rightarrow> (s\<lparr>awaiting := take k (awaiting s) @ drop (Suc k) (awaiting s)\<rparr>,
                           [Returned rid m]))
      else (s, []))"
| "step s (TickMessage now) =
     (case messageGenerator now s of
        (m, s') \<Rightarrow> (s', [Published MESSAGE_ADDED (messageAdded m)]))"
| "step s (TickStatus r now) =
     (case statusGenerator r now s of
        (st, s') \<Rightarrow> (s', [Published SYSTEM_STATUS_CHANGED (systemStatusChanged st)]))"
| "step s (TickSettings r1 r2 now) =
     (case settingsGenerator r1 r2 now s of
        (st, s') \<Rightarrow> (s', [Published SETTINGS_UPDATED (settingsUpdated st)]))"
| "step s (Subscribe f) = (case subscribe f s of (h, s') \<Rightarrow> (s', [Subscribed h]))"
| "step s (Next h) =
     (case next_event h (pubsub s) of
        (None, ps) \<Rightarrow> (s\<lparr>pubsub := ps\<rparr>, [])
      | (Some p, ps) \<Rightarrow> (s\<lparr>pubsub := ps\<rparr>, [Delivered h p]))"
| "step s (Complete h) = (s\<lparr>pubsub := unsubscribe h (pubsub s)\<rparr>, [])"

fun run :: "server \<Rightarrow> event list \<Rightarrow> server \<times> action list" where
  "run s [] = (s, [])"
| "run s (e # es) =
     (case step s e of (s1, a1) \<Rightarrow> (case run s1 es of (s2, a2) \<Rightarrow> (s2, a1 @ a2)))"


fun published_on :: "string \<Rightarrow> action list \<Rightarrow> payload list" where
  "published_on T [] = []"
| "published_on T (Published T' p # as) =
     (if T' = T then p # published_on T as else published_on T as)"
| "published_on T (a # as) = published_on T as"

fun delivered_to :: "nat \<Rightarrow> action list \<Rightarrow> payload list" where
  "delivered_to h [] = []"
| "delivered_to h (Delivered h' p # as) =
     (if h' = h then p # delivered_to h as else delivered_to h as)"
| "delivered_to h (a # as) = delivered_to h as"

subsection \<open>Invariants used in the proofs\<close>

text \<open>
  Two invariants used in the proofs about subscriptions. \<open>handles_below\<close>: every
  registered handle is below \<open>nextHandle\<close>, so a new subscription gets a handle that is
  not in use. \<open>fifo_inv h T ps del pub\<close> relates what the subscription \<open>h\<close> of topic
  \<open>T\<close> has been handed so far (\<open>del\<close>) to what has been published on \<open>T\<close> since it
  subscribed (\<open>pub\<close>): while \<open>h\<close> is registered its queue holds exactly the rest.
\<close>

definition fifo_inv :: "nat \<Rightarrow> string \<Rightarrow> PubSub \<Rightarrow> payload list \<Rightarrow> payload list \<Rightarrow> bool" where
  "fifo_inv h T ps del pub =
     (h < nextHandle ps \<and>
      (case map_of (subscriptions ps) h of
         Some (T', q) \<Rightarrow> T' = T \<and> del @ q = pub
       | None \<Rightarrow> prefix del pub))"

definition handles_below :: "PubSub \<Rightarrow> bool" where
  "handles_below ps = (\<forall>sub \<in> set (subscriptions ps). fst sub < nextHandle ps)"

text \<open>
  \<open>published_by_call es tr rid m n\<close>: in the run \<open>es\<close> with trace \<open>tr\<close>, some call of
  request \<open>rid\<close> has published \<open>m\<close> on \<^verbatim>\<open>MESSAGE_ADDED\<close>, changing the registry by
  \<open>publish\<close>, at a position of the trace before \<open>n\<close>.
\<close>

definition published_by_call :: "event list \<Rightarrow> action list \<Rightarrow> nat \<Rightarrow> message \<Rightarrow> nat \<Rightarrow> bool" where
  "published_by_call es tr rid m n =
     (\<exists>es1 args now es2 s1 tr1 s2.
        es = es1 @ Call rid args now # es2
        \<and> run init_server es1 = (s1, tr1)
        \<and> step s1 (Call rid args now) = (s2, [Published MESSAGE_ADDED (messageAdded m)])
        \<and> pubsub s2 = publish MESSAGE_ADDED (messageAdded m) (pubsub s1)
        \<and> length tr1 < n \<and> length tr1 < length tr
        \<and> tr ! length tr1 = Published MESSAGE_ADDED (messageAdded m))"

section \<open>Decimal numerals\<close>

lemma digit_cases:
  "d < 10 \<Longrightarrow> d = 0 \<or> d = 1 \<or> d = 2 \<or> d = 3 \<or> d = 4 \<or> d = 5 \<or> d = 6 \<or> d = 7 \<or> d = 8 \<or> d = (9::nat)"
  by arith

lemma digit_val_digit: "d < 10 \<Longrightarrow> digit_val (digit d) = d"
  using digit_cases [of d] by (auto simp: digit_val_def digit_def)

lemma is_digit_digit: "d < 10 \<Longrightarrow> is_digit (digit d)"
  using digit_cases [of d] by (auto simp: is_digit_def digit_def)

lemma String_num_not_Nil: "String_num n \<noteq> []"
  by (subst String_num.simps) simp

lemma String_num_digits: "list_all is_digit (String_num n)"
  by (induction n rule: String_num.induct) (subst String_num.simps, simp add: is_digit_digit)

lemma digits_val_snoc: "digits_val (s @ [c]) = 10 * digits_val s + digit_val c"
  by (simp add: digits_val_def)

lemma digits_val_String_num: "digits_val (String_num n) = n"
  by (induction n rule: String_num.induct)
     (subst String_num.simps, simp add: digits_val_snoc digit_val_digit,
      simp add: digits_val_def digit_val_digit)

lemma parse_digits_String_num: "parse_digits (String_num n) = Some n"
  by (simp add: parse_digits_def String_num_not_Nil String_num_digits digits_val_String_num)

lemma String_num_inject: "String_num m = String_num n \<Longrightarrow> m = n"
  using digits_val_String_num by metis

section \<open>Rounding to the nearest double\<close>

text \<open>
  Rounding moves a value by at most half the spacing of the doubles around it: by a
  relative error of \<open>2^-53\<close> in the normal range and by \<open>2^-1075\<close> among the
  subnormals. \<open>fl_error\<close> is the bound used below.
\<close>

lemma pow2_powi: "pow2 e = 2 powi e"
  by (simp add: pow2_def power_int_def inverse_eq_divide power_divide)

lemma pow2_pos: "0 < pow2 e"
  by (simp add: pow2_def)

lemma pow2_add: "pow2 (a + b) = pow2 a * pow2 b"
  by (simp add: pow2_powi power_int_add)

lemma pow2_mono: "a \<le> b \<Longrightarrow> pow2 a \<le> pow2 b"
  by (simp add: pow2_powi power_int_increasing)

lemma round_half_even_error: "\<bar>of_int (round_half_even y) - y\<bar> \<le> 1 / 2"
proof -
  have "of_int \<lfloor>y\<rfloor> \<le> y" "y < of_int \<lfloor>y\<rfloor> + 1" by linarith+
  then show ?thesis
    by (auto simp: round_half_even_def Let_def)
qed

lemma exponent_le:
  assumes "x \<noteq> 0"
  shows "pow2 (exponent x) \<le> \<bar>x\<bar>"
proof -
  obtain p q where pq: "quotient_of \<bar>x\<bar> = (p, q)" by (cases "quotient_of \<bar>x\<bar>")
  then have q: "0 < q" and x: "\<bar>x\<bar> = of_int p / of_int q"
    by (rule quotient_of_denom_pos, rule quotient_of_div)
  from assms x q have p: "0 < p"
    by (metis abs_ge_zero abs_zero divide_eq_0_iff linorder_neqE_linordered_idom of_int_0_less_iff of_int_eq_0_iff zero_less_abs_iff zero_less_divide_iff not_less_iff_gr_or_eq)
  define e where "e = bitlen p - bitlen q"
  show ?thesis
  proof (cases "pow2 e \<le> \<bar>x\<bar>")
    case True
    then show ?thesis by (simp add: exponent_def pq e_def Let_def)
  next
    case False
    then have ex: "exponent x = e - 1" by (simp add: exponent_def pq e_def Let_def)
    from bitlen_bounds [OF p] have lp: "2 ^ nat (bitlen p - 1) \<le> p" by simp
    from bitlen_bounds [OF q] have uq: "q < 2 ^ nat (bitlen q)" by simp
    have bp: "1 \<le> bitlen p" using p by (simp add: bitlen_def floorlog_def)
    have bq: "1 \<le> bitlen q" using q by (simp add: bitlen_def floorlog_def)
    have "pow2 (e - 1) = pow2 (bitlen p - 1) * pow2 (- bitlen q)"
      unfolding e_def pow2_add [symmetric] by (simp add: algebra_simps)
    also have "pow2 (bitlen p - 1) = 2 ^ nat (bitlen p - 1)" using bp by (simp add: pow2_def)
    also have "pow2 (- bitlen q) = 1 / 2 ^ nat (bitlen q)" using bq by (simp add: pow2_def)
    finally have "pow2 (e - 1) = 2 ^ nat (bitlen p - 1) / 2 ^ nat (bitlen q)" by simp
    also have "\<dots> \<le> of_int p / 2 ^ nat (bitlen q)"
    proof -
      have "(2::rat) ^ nat (bitlen p - 1) \<le> of_int p"
        using lp by (metis of_int_le_iff of_int_numeral of_int_power)
      then show ?thesis by (simp add: divide_right_mono)
    qed
    also have "\<dots> \<le> of_int p / of_int q"
    proof -
      have "of_int q \<le> (2::rat) ^ nat (bitlen q)"
        using uq by (metis less_imp_le of_int_le_iff of_int_numeral of_int_power)
      moreover have "(0::rat) < of_int q" using q by simp
      moreover have "(0::rat) \<le> of_int p" using p by simp
      ultimately show ?thesis by (simp add: divide_left_mono)
    qed
    finally show ?thesis by (simp add: ex x)
  qed
qed


lemma fl_zero: "fl 0 = 0"
  by (simp add: fl_def round_half_even_def Let_def)

lemma fl_error_ulp:
  "\<bar>fl x - x\<bar> \<le> pow2 (max (exponent x) (- 1022) - 52) / 2"
proof -
  define u where "u = max (exponent x) (- 1022) - 52"
  have up: "0 < pow2 u" by (rule pow2_pos)
  have "fl x - x = (of_int (round_half_even (x / pow2 u)) - x / pow2 u) * pow2 u"
    using up by (simp add: fl_def u_def Let_def algebra_simps)
  then have "\<bar>fl x - x\<bar> = \<bar>of_int (round_half_even (x / pow2 u)) - x / pow2 u\<bar> * pow2 u"
    using up by (simp add: abs_mult)
  also have "\<dots> \<le> (1 / 2) * pow2 u"
    using round_half_even_error [of "x / pow2 u"] up by (simp add: mult_right_mono)
  finally show ?thesis by (simp add: u_def)
qed

lemma pow2_m53: "pow2 (- 53) = 1 / 2 ^ 53"
  by (simp add: pow2_def)

lemma fl_error: "\<bar>fl x - x\<bar> \<le> (\<bar>x\<bar> + 1) / 2 ^ 53"
proof (cases "x = 0")
  case True
  then show ?thesis by (simp add: fl_zero)
next
  case False
  show ?thesis
  proof (cases "- 1022 \<le> exponent x")
    case True
    then have "max (exponent x) (- 1022) - 52 = exponent x + (- 53) + 1" by simp
    then have "pow2 (max (exponent x) (- 1022) - 52) = pow2 (exponent x) * pow2 (- 53) * pow2 1"
      by (simp only: pow2_add)
    moreover have "pow2 1 = 2" by (simp add: pow2_def)
    ultimately have "pow2 (max (exponent x) (- 1022) - 52) / 2 = pow2 (exponent x) * pow2 (- 53)"
      by simp
    also have "\<dots> \<le> \<bar>x\<bar> * pow2 (- 53)"
      using exponent_le [OF False] pow2_pos [of "- 53"] by (simp add: mult_right_mono)
    also have "\<dots> \<le> (\<bar>x\<bar> + 1) / 2 ^ 53"
      unfolding pow2_m53 by (simp add: divide_right_mono)
    finally show ?thesis using fl_error_ulp [of x] by linarith
  next
    case False
    then have "max (exponent x) (- 1022) - 52 = - 1074" by simp
    then have "pow2 (max (exponent x) (- 1022) - 52) / 2 = pow2 (- 1074) / 2" by simp
    also have "\<dots> \<le> pow2 (- 53) / 2"
      using pow2_mono [of "- 1074" "- 53"] by simp
    also have "\<dots> \<le> (\<bar>x\<bar> + 1) / 2 ^ 53"
      unfolding pow2_m53 by (simp add: divide_right_mono)
    finally show ?thesis using fl_error_ulp [of x] by linarith
  qed
qed

text \<open>Integers up to \<open>2^53\<close> are doubles.\<close>

lemma round_half_even_of_int: "round_half_even (of_int k) = k"
  by (simp add: round_half_even_def Let_def)

lemma fl_nat_exact:
  assumes "n \<le> 2 ^ 53"
  shows "fl (of_nat n) = of_nat n"
proof (cases "n = 0")
  case True
  then show ?thesis by (simp add: fl_zero)
next
  case False
  define x :: rat where "x = of_nat n"
  define u where "u = max (exponent x) (- 1022) - 52"
  have x0: "x \<noteq> 0" "\<bar>x\<bar> = x" using False by (simp_all add: x_def)
  have xu: "x \<le> 2 ^ 53" using assms unfolding x_def
    by (metis of_nat_le_iff of_nat_numeral of_nat_power)
  have lo: "pow2 (exponent x) \<le> x" using exponent_le [OF x0(1)] x0(2) by simp
  have e53: "exponent x \<le> 53"
  proof (rule ccontr)
    assume "\<not> exponent x \<le> 53"
    then have "pow2 54 \<le> pow2 (exponent x)" by (simp add: pow2_mono)
    moreover have "pow2 54 = 2 ^ 54" by (simp add: pow2_def)
    ultimately show False using lo xu by simp
  qed
  then have u1: "u \<le> 1" by (simp add: u_def)
  have fl: "fl x = of_int (round_half_even (x / pow2 u)) * pow2 u"
    by (simp add: fl_def u_def Let_def)
  show ?thesis
  proof (cases "u \<le> 0")
    case True
    have "pow2 u * pow2 (- u) = 1" unfolding pow2_add [symmetric] by (simp add: pow2_def)
    moreover have "pow2 (- u) = 2 ^ nat (- u)" using True by (simp add: pow2_def)
    ultimately have inv: "pow2 u * 2 ^ nat (- u) = 1" by simp
    then have "x / pow2 u = x * 2 ^ nat (- u)"
      using pow2_pos [of u] by (simp add: field_simps)
    also have "\<dots> = of_int (int n * 2 ^ nat (- u))" by (simp add: x_def)
    finally have "round_half_even (x / pow2 u) = int n * 2 ^ nat (- u)"
      by (simp only: round_half_even_of_int)
    then have "fl x = of_int (int n * 2 ^ nat (- u)) * pow2 u" by (simp only: fl)
    also have "\<dots> = x * (pow2 u * 2 ^ nat (- u))" by (simp add: x_def)
    finally show ?thesis using inv by (simp add: x_def)
  next
    case False
    with u1 have u: "u = 1" by simp
    then have "exponent x = 53" using e53 by (simp add: u_def)
    with lo have "2 ^ 53 \<le> x" by (simp add: pow2_def)
    with xu have x53: "x = 2 ^ 53" by simp
    have "x / pow2 u = of_int (2 ^ 52)" by (simp add: x53 u pow2_def)
    then have "round_half_even (x / pow2 u) = 2 ^ 52" by (simp only: round_half_even_of_int)
    then have "fl x = of_int (2 ^ 52) * pow2 u" by (simp only: fl)
    also have "\<dots> = x" by (simp add: u pow2_def x53)
    finally show ?thesis by (simp add: x_def)
  qed
qed

text \<open>The numeric literals of \<^verbatim>\<open>index.js\<close> as doubles.\<close>

lemma fl_literals:
  "fl (15 / 10) = 3 / 2"
  "fl (5 / 10) = 1 / 2"
  "fl (1 / 10) = 3602879701896397 / 36028797018963968"
  "fl (16 / 10) = 3602879701896397 / 2251799813685248"
  by code_simp+

text \<open>
  The counter: \<^verbatim>\<open>idCounter++\<close> adds one as long as the counter is below \<open>2^53\<close>, and
  leaves a counter of \<open>2^53\<close> as it is, since \<open>2^53 + 1\<close> lies halfway between two
  doubles and the tie goes to \<open>2^53\<close>.
\<close>

lemma increment_below: "c < 2 ^ 53 \<Longrightarrow> increment c = c + 1"
proof -
  assume "c < 2 ^ 53"
  then have "c + 1 \<le> 2 ^ 53" by simp
  from fl_nat_exact [OF this] have "fl (of_nat c + 1) = of_nat (c + 1)"
    by (simp add: add.commute)
  then show ?thesis by (simp add: increment_def)
qed

lemma fl_above_top: "fl (9007199254740992 + 1) = 9007199254740992"
  by code_simp

lemma increment_top: "increment (2 ^ 53) = 2 ^ 53"
  using fl_above_top by (simp add: increment_def)


section \<open>Checking the arguments\<close>

lemma coerce_String_Some: "(coerce_String v = Some s) = (v = StringValue s)"
  by (cases v) auto

lemma coerce_String_None: "(coerce_String v = None) = (\<not> is_String v)"
  by (cases v) auto

lemma coerce_Boolean_None: "(coerce_Boolean v = None) = (\<not> is_Boolean v)"
  by (cases v) auto

lemma coerce_items_None: "(coerce_items vs = None) = (\<not> list_all is_String vs)"
  by (induction vs) (auto simp: coerce_String_None [symmetric] split: option.splits)

lemma coerce_String_list_None: "(coerce_String_list v = None) = (\<not> is_String_list v)"
  by (cases v) (auto simp: coerce_items_None)

lemma required_ok:
  "((case m of None \<Rightarrow> None | Some v \<Rightarrow> coerce_String v) \<noteq> None)
     = (case m of None \<Rightarrow> False | Some v \<Rightarrow> is_String v)"
  by (cases m) (simp_all add: coerce_String_None)

lemma optional_ok:
  assumes "\<And>v. (f v = None) = (\<not> P v)"
  shows "(optional f d m \<noteq> None) = (case m of None \<Rightarrow> True | Some v \<Rightarrow> v = NullValue \<or> P v)"
proof -
  have "(f v \<noteq> None) = P v" for v using assms [of v] by simp
  then have "(\<exists>z. f v = Some z) = P v" for v by (simp add: not_None_eq [symmetric] del: not_None_eq)
  then show ?thesis by (cases m) (auto simp: optional_def)
qed

lemmas optional_String_ok = optional_ok [of coerce_String is_String, OF coerce_String_None]
lemmas optional_Boolean_ok = optional_ok [of coerce_Boolean is_Boolean, OF coerce_Boolean_None]
lemmas optional_String_list_ok =
  optional_ok [of coerce_String_list is_String_list, OF coerce_String_list_None]

lemma declared_arguments_set:
  "list_all (\<lambda>n. n \<in> set declared_arguments) ns
     = (set ns \<subseteq> {''text'', ''author'', ''channel'', ''important'', ''tags''})"
  by (auto simp: declared_arguments_def list_all_iff)

lemma all_coerced:
  "((case (t, a, c, b, ts) of
       (Some t', Some a', Some c', Some b', Some ts') \<Rightarrow> Inr (R t' a' c' b' ts')
     | _ \<Rightarrow> Inl ValidationError) = Inl ValidationError)
   = (\<not> (t \<noteq> None \<and> a \<noteq> None \<and> c \<noteq> None \<and> b \<noteq> None \<and> ts \<noteq> None))"
  by (cases t; cases a; cases c; cases b; cases ts) simp_all

lemma coerce_args_rejects: "(coerce_args i = Inl ValidationError) = (\<not> fits_signature i)"
proof (cases "distinct (map fst i)
    \<and> set (map fst i) \<subseteq> {''text'', ''author'', ''channel'', ''important'', ''tags''}")
  case False
  then show ?thesis
    by (auto simp: coerce_args_def fits_signature_def declared_arguments_set)
next
  case True
  then have "coerce_args i =
      (case (case map_of i ''text'' of None \<Rightarrow> None | Some v \<Rightarrow> coerce_String v,
             optional coerce_String ''user'' (map_of i ''author''),
             optional coerce_String ''general'' (map_of i ''channel''),
             optional coerce_Boolean False (map_of i ''important''),
             optional coerce_String_list [] (map_of i ''tags'')) of
         (Some t, Some a, Some c, Some b, Some ts) \<Rightarrow>
           Inr \<lparr>text_arg = t, author_arg = a, channel_arg = c, important_arg = b,
                tags_arg = ts\<rparr>
       | _ \<Rightarrow> Inl ValidationError)"
    by (simp add: coerce_args_def declared_arguments_set)
  then have "(coerce_args i = Inl ValidationError) =
      (\<not> ((case map_of i ''text'' of None \<Rightarrow> None | Some v \<Rightarrow> coerce_String v) \<noteq> None
          \<and> optional coerce_String ''user'' (map_of i ''author'') \<noteq> None
          \<and> optional coerce_String ''general'' (map_of i ''channel'') \<noteq> None
          \<and> optional coerce_Boolean False (map_of i ''important'') \<noteq> None
          \<and> optional coerce_String_list [] (map_of i ''tags'') \<noteq> None))"
    by (simp only: all_coerced)
  also have "\<dots> = (\<not> fits_signature i)"
    unfolding required_ok optional_String_ok optional_Boolean_ok optional_String_list_ok
      fits_signature_def
    using True by simp
  finally show ?thesis .
qed

lemma coerce_args_accepts: "(\<exists>a. coerce_args i = Inr a) = fits_signature i"
proof -
  have "(\<exists>a. coerce_args i = Inr a) = (coerce_args i \<noteq> Inl ValidationError)"
    by (cases "coerce_args i") (auto intro: error.exhaust)
  then show ?thesis by (simp add: coerce_args_rejects)
qed

lemma coerce_args_text:
  assumes "coerce_args i = Inr a"
  shows "map_of i ''text'' = Some (StringValue (text_arg a))"
proof -
  obtain t where t: "(case map_of i ''text'' of None \<Rightarrow> None | Some v \<Rightarrow> coerce_String v) = Some t"
    and a: "text_arg a = t"
    using assms
    by (cases "case map_of i ''text'' of None \<Rightarrow> None | Some v \<Rightarrow> coerce_String v";
        cases "optional coerce_String ''user'' (map_of i ''author'')";
        cases "optional coerce_String ''general'' (map_of i ''channel'')";
        cases "optional coerce_Boolean False (map_of i ''important'')";
        cases "optional coerce_String_list [] (map_of i ''tags'')")
       (auto simp: coerce_args_def split: if_splits)
  from t obtain v where "map_of i ''text'' = Some v" "coerce_String v = Some t"
    by (cases "map_of i ''text''") auto
  then show ?thesis by (simp add: coerce_String_Some a)
qed

lemma step_Call_rejected:
  "coerce_args i = Inl e \<Longrightarrow> step s (Call rid i now) = (s, [Rejected rid ValidationError])"
  by (cases e) simp

section \<open>The mutation \<^verbatim>\<open>sendMessage\<close>\<close>

text \<open>The equations that evaluate a run on concrete events.\<close>

lemmas ev = init_server_def coerce_args_def optional_def declared_arguments_def sendMessage_def
  messageGenerator_def publish_def deliver_def subscribe_def asyncIterator_def next_event_def
  trigger_def increment_below String_num.simps digit_def Let_def



text \<open>
  Claim C10. The result of \<^verbatim>\<open>sendMessage\<close> and the payload it publishes do not depend
  on the \<^verbatim>\<open>author\<close>, \<^verbatim>\<open>channel\<close>, \<^verbatim>\<open>important\<close> and \<^verbatim>\<open>tags\<close> arguments: two
  accepted calls with the same \<^verbatim>\<open>text\<close>, made in the same state at the same clock
  reading, do the same thing, whatever their other arguments are. So do two calls that
  are both refused.
\<close>

theorem sendMessage_ignores_other_arguments:
  "(coerce_args i1 = Inr a1 \<and> coerce_args i2 = Inr a2 \<and> text_arg a1 = text_arg a2
      \<longrightarrow> step s (Call rid i1 now) = step s (Call rid i2 now))
   \<and> (coerce_args i1 = Inl e1 \<and> coerce_args i2 = Inl e2
      \<longrightarrow> step s (Call rid i1 now) = step s (Call rid i2 now))"
  by (cases e1; cases e2) (simp add: sendMessage_def Let_def)

theorem sendMessage_ignores_other_arguments_witness:
  "coerce_args [(''text'', StringValue ''hi''), (''author'', StringValue ''eve''),
                (''channel'', StringValue ''random''), (''important'', BooleanValue True),
                (''tags'', ListValue [StringValue ''x''])] =
     Inr \<lparr>text_arg = ''hi'', author_arg = Some ''eve'', channel_arg = Some ''random'',
          important_arg = Some True, tags_arg = Some [''x'']\<rparr>
   \<and> coerce_args [(''text'', StringValue ''hi'')] =
     Inr \<lparr>text_arg = ''hi'', author_arg = Some ''user'', channel_arg = Some ''general'',
          important_arg = Some False, tags_arg = Some []\<rparr>
   \<and> step init_server
     (Call 1 [(''text'', StringValue ''hi''), (''author'', StringValue ''eve''),
              (''channel'', StringValue ''random''), (''important'', BooleanValue True),
              (''tags'', ListValue [StringValue ''x''])] 5) =
   step init_server (Call 1 [(''text'', StringValue ''hi'')] 5)"
proof -
  have c1: "coerce_args [(''text'', StringValue ''hi''), (''author'', StringValue ''eve''),
                (''channel'', StringValue ''random''), (''important'', BooleanValue True),
                (''tags'', ListValue [StringValue ''x''])] =
     Inr \<lparr>text_arg = ''hi'', author_arg = Some ''eve'', channel_arg = Some ''random'',
          important_arg = Some True, tags_arg = Some [''x'']\<rparr>"
    by (simp add: coerce_args_def optional_def declared_arguments_def)
  have c2: "coerce_args [(''text'', StringValue ''hi'')] =
     Inr \<lparr>text_arg = ''hi'', author_arg = Some ''user'', channel_arg = Some ''general'',
          important_arg = Some False, tags_arg = Some []\<rparr>"
    by (simp add: coerce_args_def optional_def declared_arguments_def)
  from sendMessage_ignores_other_arguments [of
      "[(''text'', StringValue ''hi''), (''author'', StringValue ''eve''),
        (''channel'', StringValue ''random''), (''important'', BooleanValue True),
        (''tags'', ListValue [StringValue ''x''])]"
      "\<lparr>text_arg = ''hi'', author_arg = Some ''eve'', channel_arg = Some ''random'',
        important_arg = Some True, tags_arg = Some [''x'']\<rparr>"
      "[(''text'', StringValue ''hi'')]"
      "\<lparr>text_arg = ''hi'', author_arg = Some ''user'', channel_arg = Some ''general'',
        important_arg = Some False, tags_arg = Some []\<rparr>"
      init_server 1 5] c1 c2
  show ?thesis by simp
qed

text \<open>
  Claim C3, as stated: \<^verbatim>\<open>sendMessage\<close> fails exactly when \<^verbatim>\<open>text\<close> is missing or
  empty, and nothing else about the input causes an error. It does not hold. Neither
  the schema (\<^verbatim>\<open>String!\<close>) nor the resolver looks at the length of \<^verbatim>\<open>text\<close>: a call
  with the empty string succeeds, publishing a message whose text is empty. And a call
  with a good text is refused when another argument does not fit the signature
  (\<^verbatim>\<open>tags: [null]\<close>), as is a \<^verbatim>\<open>text\<close> that is not a string, or an argument that is
  not declared.
\<close>

theorem sendMessage_validation_counterexample:
  "step init_server (Call 0 [(''text'', StringValue [])] 0) =
     (\<lparr>idCounter = 2, pubsub = \<lparr>subscriptions = [], nextHandle = 0\<rparr>,
       awaiting = [(0, \<lparr>id' = ''1'', text' = [], createdAt = 0, author = ''user'',
                        channel = ''general'', important = False, tags = []\<rparr>)]\<rparr>,
      [Published MESSAGE_ADDED
         (messageAdded \<lparr>id' = ''1'', text' = [], createdAt = 0, author = ''user'',
                        channel = ''general'', important = False, tags = []\<rparr>)])
   \<and> step init_server
         (Call 0 [(''text'', StringValue ''hi''), (''tags'', ListValue [NullValue])] 0) =
       (init_server, [Rejected 0 ValidationError])
   \<and> step init_server (Call 0 [(''text'', IntValue 5)] 0) =
       (init_server, [Rejected 0 ValidationError])
   \<and> step init_server
         (Call 0 [(''text'', StringValue ''hi''), (''mood'', StringValue ''calm'')] 0) =
       (init_server, [Rejected 0 ValidationError])"
  by (simp add: ev)

text \<open>
  Claim C3, amended: in a request that is well formed otherwise, \<^verbatim>\<open>sendMessage\<close> fails
  if and only if the arguments supplied do not fit its declared signature: \<^verbatim>\<open>text\<close> missing, \<^verbatim>\<open>null\<close> or not a string, another
  argument of the wrong type, an argument that is not declared, or one given twice. The
  failure is a validation error reported for the request, with the state unchanged. In
  every other case, the empty text included, the call succeeds and publishes a message
  with the text supplied.
\<close>

theorem sendMessage_fails_iff_signature_violated:
  "(step s (Call rid i now) = (s, [Rejected rid ValidationError])) = (\<not> fits_signature i)
   \<and> ((\<exists>m s'. step s (Call rid i now) = (s', [Published MESSAGE_ADDED (messageAdded m)])
              \<and> map_of i ''text'' = Some (StringValue (text' m)))
        = fits_signature i)"
proof (cases "coerce_args i")
  case (Inl e)
  then have "coerce_args i = Inl ValidationError" by (cases e) simp
  with coerce_args_rejects [of i] have "\<not> fits_signature i" by simp
  with Inl show ?thesis by (cases e) simp
next
  case (Inr a)
  with coerce_args_accepts [of i] have f: "fits_signature i" by auto
  from Inr coerce_args_text [OF Inr] f show ?thesis
    by (simp add: sendMessage_def Let_def)
qed

theorem sendMessage_fails_iff_signature_violated_witness:
  "\<not> fits_signature [(''author'', StringValue ''eve'')]
   \<and> step init_server (Call 3 [(''author'', StringValue ''eve'')] 0)
       = (init_server, [Rejected 3 ValidationError])
   \<and> fits_signature [(''text'', StringValue []), (''tags'', StringValue ''x'')]
   \<and> step init_server (Call 4 [(''text'', StringValue []), (''tags'', StringValue ''x'')] 0)
       \<noteq> (init_server, [Rejected 4 ValidationError])"
  using sendMessage_fails_iff_signature_violated [of init_server 3
      "[(''author'', StringValue ''eve'')]" 0]
    sendMessage_fails_iff_signature_violated [of init_server 4
      "[(''text'', StringValue []), (''tags'', StringValue ''x'')]" 0]
  by (simp add: fits_signature_def)

section \<open>The message generator\<close>


lemma publish_no_subscriber: "subscriptions ps = [] \<Longrightarrow> publish T p ps = ps"
  by (simp add: publish_def)

lemma fst_run_Cons: "fst (run s (e # es)) = fst (run (fst (step s e)) es)"
  by (simp split: prod.splits)


lemma run_ticks:
  "subscriptions (pubsub s) = [] \<Longrightarrow> idCounter s + k \<le> 2 ^ 53 \<Longrightarrow>
     fst (run s (replicate k (TickMessage t))) = s\<lparr>idCounter := idCounter s + k\<rparr>"
proof (induction k arbitrary: s)
  case 0
  then show ?case by simp
next
  case (Suc k)
  from Suc.prems have c: "idCounter s < 2 ^ 53" by simp
  define s1 where "s1 = s\<lparr>idCounter := idCounter s + 1\<rparr>"
  have st: "fst (step s (TickMessage t)) = s1"
    using Suc.prems(1) c
    by (simp add: messageGenerator_def Let_def increment_below publish_no_subscriber s1_def)
  have "subscriptions (pubsub s1) = []" "idCounter s1 + k \<le> 2 ^ 53"
    using Suc.prems by (simp_all add: s1_def)
  from Suc.IH [OF this] have "fst (run s1 (replicate k (TickMessage t))) = s1\<lparr>idCounter := idCounter s1 + k\<rparr>" .
  then show ?case using st by (simp add: fst_run_Cons s1_def del: run.simps)
qed

lemma ticks_reach_top:
  assumes "es = replicate k (TickMessage t)" and "Suc k = 2 ^ 53"
  shows "fst (run init_server es) = init_server\<lparr>idCounter := 2 ^ 53\<rparr>"
proof -
  have "subscriptions (pubsub init_server) = []" "idCounter init_server + k \<le> 2 ^ 53"
    using assms(2) by (simp_all add: init_server_def)
  from run_ticks [OF this, of t] assms show ?thesis by (simp add: init_server_def)
qed

lemma String_num_top: "String_num 9007199254740992 = ''9007199254740992''"
  by (simp add: String_num.simps digit_def)

text \<open>
  Claim C9, as stated: in every tick of the message generator the number in the text
  is the number of the id plus one, and never equals the id. It does not hold once the
  counter has reached \<open>2^53\<close>, as it has after \<open>2^53 - 1\<close> ticks: there the
  post-increment leaves the counter where it is, and the tick publishes a message
  whose text carries the very number of its id.
\<close>

theorem messageGenerator_text_equals_id_counterexample:
  "fst (run init_server (replicate 9007199254740991 (TickMessage 0))) =
     init_server\<lparr>idCounter := 9007199254740992\<rparr>
   \<and> snd (step (init_server\<lparr>idCounter := 9007199254740992\<rparr>) (TickMessage 0)) =
     [Published MESSAGE_ADDED
        (messageAdded \<lparr>id' = ''9007199254740992'',
                       text' = ''Server message #9007199254740992'',
                       createdAt = 0, author = ''server'', channel = ''news'',
                       important = False, tags = [''auto'']\<rparr>)]"
proof
  have "fst (run init_server (replicate 9007199254740991 (TickMessage 0))) =
     init_server\<lparr>idCounter := 2 ^ 53\<rparr>"
    by (rule ticks_reach_top [OF refl]) simp
  then show "fst (run init_server (replicate 9007199254740991 (TickMessage 0))) =
     init_server\<lparr>idCounter := 9007199254740992\<rparr>" by (simp only: power_numeral) simp
next
  have "increment 9007199254740992 = 9007199254740992" using increment_top by simp
  then show "snd (step (init_server\<lparr>idCounter := 9007199254740992\<rparr>) (TickMessage 0)) =
     [Published MESSAGE_ADDED
        (messageAdded \<lparr>id' = ''9007199254740992'',
                       text' = ''Server message #9007199254740992'',
                       createdAt = 0, author = ''server'', channel = ''news'',
                       important = False, tags = [''auto'']\<rparr>)]"
    by (simp add: messageGenerator_def Let_def String_num_top)
qed

text \<open>
  Claim C9, amended: in every tick of the message generator taken while the counter is
  below \<open>2^53\<close>, the number in the text is the number of the message's own id plus
  one (the id is the counter before the post-increment, the text reads the counter
  after it), so the two differ.
\<close>

theorem messageGenerator_text_is_id_plus_one:
  assumes "idCounter s < 2 ^ 53"
  shows "let m = fst (messageGenerator now s)
         in parse_digits (id' m) = Some (idCounter s)
            \<and> take 16 (text' m) = ''Server message #''
            \<and> parse_digits (drop 16 (text' m)) = Some (idCounter s + 1)
            \<and> drop 16 (text' m) \<noteq> id' m"
proof -
  have "String_num (idCounter s + 1) \<noteq> String_num (idCounter s)"
    using String_num_inject [of "idCounter s + 1" "idCounter s"] by auto
  then show ?thesis
    using increment_below [OF assms]
    by (simp add: messageGenerator_def Let_def parse_digits_String_num)
qed

theorem messageGenerator_text_is_id_plus_one_witness:
  "idCounter init_server < 2 ^ 53
   \<and> id' (fst (messageGenerator 0 init_server)) = ''1''
   \<and> text' (fst (messageGenerator 0 init_server)) = ''Server message #2''
   \<and> parse_digits (id' (fst (messageGenerator 0 init_server))) = Some 1
   \<and> parse_digits (drop 16 (text' (fst (messageGenerator 0 init_server)))) = Some 2"
proof -
  have h: "idCounter init_server < 2 ^ 53" by (simp add: init_server_def)
  from messageGenerator_text_is_id_plus_one [OF h, of 0] h
  show ?thesis by (simp add: ev)
qed

section \<open>The shared counter\<close>


lemma run_append:
  "run s (es @ es') =
     (case run s es of (s1, a1) \<Rightarrow> (case run s1 es' of (s2, a2) \<Rightarrow> (s2, a1 @ a2)))"
  by (induction es arbitrary: s) (simp_all split: prod.splits)










section \<open>Publishing before returning\<close>

lemma published_by_call_mono:
  assumes "published_by_call es tr rid m n" and "n \<le> n'"
  shows "published_by_call (es @ [e]) (tr @ a) rid m n'"
proof -
  from assms(1) obtain es1 args now es2 s1 tr1 s2 where
    h: "es = es1 @ Call rid args now # es2" "run init_server es1 = (s1, tr1)"
      "step s1 (Call rid args now) = (s2, [Published MESSAGE_ADDED (messageAdded m)])"
      "pubsub s2 = publish MESSAGE_ADDED (messageAdded m) (pubsub s1)"
      "length tr1 < n" "length tr1 < length tr"
      "tr ! length tr1 = Published MESSAGE_ADDED (messageAdded m)"
    unfolding published_by_call_def by blast
  have "es @ [e] = es1 @ Call rid args now # (es2 @ [e])" using h(1) by simp
  moreover have "length tr1 < n'" using h(5) assms(2) by simp
  moreover have "length tr1 < length (tr @ a)" using h(6) by simp
  moreover have "(tr @ a) ! length tr1 = Published MESSAGE_ADDED (messageAdded m)"
    using h(6,7) by (simp add: nth_append)
  ultimately show ?thesis
    unfolding published_by_call_def using h(2,3,4) by blast
qed

lemma published_by_call_new:
  assumes "run init_server es = (s1, tr1)"
    and "step s1 (Call rid args now) = (s2, [Published MESSAGE_ADDED (messageAdded m)])"
    and "pubsub s2 = publish MESSAGE_ADDED (messageAdded m) (pubsub s1)"
  shows "published_by_call (es @ [Call rid args now])
           (tr1 @ [Published MESSAGE_ADDED (messageAdded m)]) rid m (Suc (length tr1))"
proof -
  have "es @ [Call rid args now] = es @ Call rid args now # []" by simp
  moreover have "(tr1 @ [Published MESSAGE_ADDED (messageAdded m)]) ! length tr1
      = Published MESSAGE_ADDED (messageAdded m)" by simp
  ultimately show ?thesis
    unfolding published_by_call_def using assms
    by (intro exI [of _ es] exI [of _ args] exI [of _ now] exI [of _ "[]"] exI [of _ s1]
        exI [of _ tr1] exI [of _ s2]) simp
qed

lemma step_awaiting:
  assumes "step s1 e = (s2, a)"
  shows "(\<forall>x \<in> set (awaiting s2). x \<in> set (awaiting s1)
            \<or> (\<exists>rid args now m. e = Call rid args now \<and> x = (rid, m)
                 \<and> a = [Published MESSAGE_ADDED (messageAdded m)]
                 \<and> pubsub s2 = publish MESSAGE_ADDED (messageAdded m) (pubsub s1)))
       \<and> (\<forall>rid m. Returned rid m \<in> set a \<longrightarrow> (rid, m) \<in> set (awaiting s1))
       \<and> length a \<le> 1"
proof (cases e)
  case (Call rid i now)
  with assms show ?thesis
    by (cases "coerce_args i") (auto simp: sendMessage_def Let_def)
next
  case (Resume k)
  show ?thesis
  proof (cases "k < length (awaiting s1)")
    case True
    obtain rid m where km: "awaiting s1 ! k = (rid, m)" by (cases "awaiting s1 ! k")
    from True km have mem: "(rid, m) \<in> set (awaiting s1)" by (metis nth_mem)
    from True km Resume assms
    have s2: "awaiting s2 = take k (awaiting s1) @ drop (Suc k) (awaiting s1)"
      and a: "a = [Returned rid m]"
      by auto
    have sub: "set (awaiting s2) \<subseteq> set (awaiting s1)"
      unfolding s2
      using set_take_subset [of k "awaiting s1"] set_drop_subset [of "Suc k" "awaiting s1"]
      by auto
    show ?thesis using sub mem a by auto
  next
    case False
    with Resume assms show ?thesis by auto
  qed
next
  case (TickMessage now)
  with assms show ?thesis by (auto simp: messageGenerator_def Let_def)
next
  case (TickStatus r now)
  with assms show ?thesis by (auto simp: statusGenerator_def Let_def)
next
  case (TickSettings r1 r2 now)
  with assms show ?thesis by (auto simp: settingsGenerator_def Let_def)
next
  case (Subscribe f)
  with assms show ?thesis by (auto simp: subscribe_def asyncIterator_def)
next
  case (Next h)
  with assms show ?thesis by (auto split: prod.splits option.splits)
next
  case (Complete h)
  with assms show ?thesis by auto
qed

lemma run_snoc:
  "run s (es @ [e]) =
     (case run s es of (s1, tr1) \<Rightarrow> (case step s1 e of (s2, a) \<Rightarrow> (s2, tr1 @ a)))"
  by (simp add: run_append split: prod.splits)

lemma returns_follow_publish:
  "run init_server es = (s, tr) \<Longrightarrow>
     (\<forall>x \<in> set (awaiting s). published_by_call es tr (fst x) (snd x) (length tr))
   \<and> (\<forall>i < length tr. \<forall>rid m. tr ! i = Returned rid m \<longrightarrow> published_by_call es tr rid m i)"
proof (induction es arbitrary: s tr rule: rev_induct)
  case Nil
  then have "s = init_server" "tr = []" by simp_all
  then show ?case by (simp add: init_server_def)
next
  case (snoc e es)
  obtain s1 tr1 where r1: "run init_server es = (s1, tr1)" by (cases "run init_server es")
  obtain s2 a where st: "step s1 e = (s2, a)" by (cases "step s1 e")
  from snoc.prems r1 st have s: "s = s2" and tr: "tr = tr1 @ a" by (simp_all add: run_snoc)
  note ih = snoc.IH [OF r1]
  note sa = step_awaiting [OF st]
  have one: "length a \<le> 1" using sa by blast
  have 1: "\<forall>x \<in> set (awaiting s2). published_by_call (es @ [e]) (tr1 @ a) (fst x) (snd x) (length (tr1 @ a))"
  proof
    fix x assume x: "x \<in> set (awaiting s2)"
    from sa x consider (old) "x \<in> set (awaiting s1)"
      | (new) rid args now m where "e = Call rid args now" "x = (rid, m)"
          "a = [Published MESSAGE_ADDED (messageAdded m)]"
          "pubsub s2 = publish MESSAGE_ADDED (messageAdded m) (pubsub s1)"
      by blast
    then show "published_by_call (es @ [e]) (tr1 @ a) (fst x) (snd x) (length (tr1 @ a))"
    proof cases
      case old
      with ih have "published_by_call es tr1 (fst x) (snd x) (length tr1)" by blast
      then show ?thesis by (rule published_by_call_mono) simp
    next
      case new
      from published_by_call_new [OF r1 st [unfolded new(1,3)] new(4)] new
      show ?thesis by simp
    qed
  qed
  have 2: "\<forall>i < length (tr1 @ a). \<forall>rid m. (tr1 @ a) ! i = Returned rid m
             \<longrightarrow> published_by_call (es @ [e]) (tr1 @ a) rid m i"
  proof (intro allI impI)
    fix i rid m
    assume i: "i < length (tr1 @ a)" and r: "(tr1 @ a) ! i = Returned rid m"
    show "published_by_call (es @ [e]) (tr1 @ a) rid m i"
    proof (cases "i < length tr1")
      case True
      with r have "tr1 ! i = Returned rid m" by (simp add: nth_append)
      with ih True have "published_by_call es tr1 rid m i" by blast
      then show ?thesis by (rule published_by_call_mono) simp
    next
      case False
      with i one have il: "i = length tr1" and al: "length a = 1" by simp_all
      with r have "a ! 0 = Returned rid m" by (simp add: nth_append)
      with al have "Returned rid m \<in> set a" by (metis nth_mem zero_less_one)
      with sa have "(rid, m) \<in> set (awaiting s1)" by blast
      with ih have "published_by_call es tr1 rid m (length tr1)" by force
      then show ?thesis unfolding il by (rule published_by_call_mono) simp
    qed
  qed
  from 1 2 show ?case unfolding s tr by blast
qed

lemma publish_appends:
  "(h, T, q) \<in> set (subscriptions ps) \<Longrightarrow> (h, T, q @ [p]) \<in> set (subscriptions (publish T p ps))"
  by (force simp: publish_def deliver_def)

text \<open>
  Claim C7. In every run, a result that a \<^verbatim>\<open>sendMessage\<close> handler returns to its
  caller comes after the publish of that same message: an earlier step of the run is
  the call of that request, and that step has changed the registry by
  \<^verbatim>\<open>publish(MESSAGE_ADDED, message)\<close>, so that every subscription registered on
  \<^verbatim>\<open>MESSAGE_ADDED\<close> at the call had the message in its queue before the handler was
  resumed to return it.
\<close>

theorem sendMessage_publishes_before_return:
  assumes "run init_server es = (s, tr)" and "i < length tr" and "tr ! i = Returned rid m"
  shows "\<exists>es1 args now es2 s1 tr1 s2.
           es = es1 @ Call rid args now # es2
           \<and> run init_server es1 = (s1, tr1)
           \<and> step s1 (Call rid args now) = (s2, [Published MESSAGE_ADDED (messageAdded m)])
           \<and> pubsub s2 = publish MESSAGE_ADDED (messageAdded m) (pubsub s1)
           \<and> (\<forall>h q. (h, MESSAGE_ADDED, q) \<in> set (subscriptions (pubsub s1))
                  \<longrightarrow> (h, MESSAGE_ADDED, q @ [messageAdded m]) \<in> set (subscriptions (pubsub s2)))
           \<and> length tr1 < i
           \<and> tr ! length tr1 = Published MESSAGE_ADDED (messageAdded m)"
proof -
  from returns_follow_publish [OF assms(1)] assms(2,3)
  have "published_by_call es tr rid m i" by blast
  then obtain es1 args now es2 s1 tr1 s2 where
    h: "es = es1 @ Call rid args now # es2" "run init_server es1 = (s1, tr1)"
      "step s1 (Call rid args now) = (s2, [Published MESSAGE_ADDED (messageAdded m)])"
      "pubsub s2 = publish MESSAGE_ADDED (messageAdded m) (pubsub s1)"
      "length tr1 < i"
      "tr ! length tr1 = Published MESSAGE_ADDED (messageAdded m)"
    unfolding published_by_call_def by blast
  have "\<forall>h q. (h, MESSAGE_ADDED, q) \<in> set (subscriptions (pubsub s1))
          \<longrightarrow> (h, MESSAGE_ADDED, q @ [messageAdded m]) \<in> set (subscriptions (pubsub s2))"
    unfolding h(4) by (intro allI impI publish_appends)
  with h show ?thesis by blast
qed

theorem sendMessage_publishes_before_return_witness:
  "run init_server
     [Subscribe messageAdded_field, Call 7 [(''text'', StringValue ''hi'')] 1000] =
   (\<lparr>idCounter = 2,
     pubsub = \<lparr>subscriptions =
                [(0, MESSAGE_ADDED,
                  [messageAdded \<lparr>id' = ''1'', text' = ''hi'', createdAt = 1000,
                                 author = ''user'', channel = ''general'', important = False,
                                 tags = []\<rparr>])],
               nextHandle = 1\<rparr>,
     awaiting = [(7, \<lparr>id' = ''1'', text' = ''hi'', createdAt = 1000, author = ''user'',
                      channel = ''general'', important = False, tags = []\<rparr>)]\<rparr>,
    [Subscribed 0,
     Published MESSAGE_ADDED
       (messageAdded \<lparr>id' = ''1'', text' = ''hi'', createdAt = 1000, author = ''user'',
                      channel = ''general'', important = False, tags = []\<rparr>)])
   \<and> snd (run init_server
        [Subscribe messageAdded_field, Call 7 [(''text'', StringValue ''hi'')] 1000,
         Next 0, Resume 0]) =
    [Subscribed 0,
     Published MESSAGE_ADDED
       (messageAdded \<lparr>id' = ''1'', text' = ''hi'', createdAt = 1000, author = ''user'',
                      channel = ''general'', important = False, tags = []\<rparr>),
     Delivered 0
       (messageAdded \<lparr>id' = ''1'', text' = ''hi'', createdAt = 1000, author = ''user'',
                      channel = ''general'', important = False, tags = []\<rparr>),
     Returned 7 \<lparr>id' = ''1'', text' = ''hi'', createdAt = 1000, author = ''user'',
                 channel = ''general'', important = False, tags = []\<rparr>]
   \<and> (\<exists>es1 args now es2 s1 tr1 s2.
         [Subscribe messageAdded_field, Call 7 [(''text'', StringValue ''hi'')] 1000,
          Next 0, Resume 0] = es1 @ Call 7 args now # es2
         \<and> run init_server es1 = (s1, tr1)
         \<and> step s1 (Call 7 args now) =
             (s2, [Published MESSAGE_ADDED
                     (messageAdded \<lparr>id' = ''1'', text' = ''hi'', createdAt = 1000,
                                    author = ''user'', channel = ''general'',
                                    important = False, tags = []\<rparr>)])
         \<and> pubsub s2 =
             publish MESSAGE_ADDED
               (messageAdded \<lparr>id' = ''1'', text' = ''hi'', createdAt = 1000,
                              author = ''user'', channel = ''general'', important = False,
                              tags = []\<rparr>) (pubsub s1)
         \<and> length tr1 < 3)"
proof -
  obtain s where r: "run init_server
        [Subscribe messageAdded_field, Call 7 [(''text'', StringValue ''hi'')] 1000,
         Next 0, Resume 0] =
    (s, [Subscribed 0,
     Published MESSAGE_ADDED
       (messageAdded \<lparr>id' = ''1'', text' = ''hi'', createdAt = 1000, author = ''user'',
                      channel = ''general'', important = False, tags = []\<rparr>),
     Delivered 0
       (messageAdded \<lparr>id' = ''1'', text' = ''hi'', createdAt = 1000, author = ''user'',
                      channel = ''general'', important = False, tags = []\<rparr>),
     Returned 7 \<lparr>id' = ''1'', text' = ''hi'', createdAt = 1000, author = ''user'',
                 channel = ''general'', important = False, tags = []\<rparr>])"
    by (simp add: ev)
  have p: "run init_server
     [Subscribe messageAdded_field, Call 7 [(''text'', StringValue ''hi'')] 1000] =
   (\<lparr>idCounter = 2,
     pubsub = \<lparr>subscriptions =
                [(0, MESSAGE_ADDED,
                  [messageAdded \<lparr>id' = ''1'', text' = ''hi'', createdAt = 1000,
                                 author = ''user'', channel = ''general'', important = False,
                                 tags = []\<rparr>])],
               nextHandle = 1\<rparr>,
     awaiting = [(7, \<lparr>id' = ''1'', text' = ''hi'', createdAt = 1000, author = ''user'',
                      channel = ''general'', important = False, tags = []\<rparr>)]\<rparr>,
    [Subscribed 0,
     Published MESSAGE_ADDED
       (messageAdded \<lparr>id' = ''1'', text' = ''hi'', createdAt = 1000, author = ''user'',
                      channel = ''general'', important = False, tags = []\<rparr>)])"
    by (simp add: ev)
  from sendMessage_publishes_before_return [OF r, of 3 7
      "\<lparr>id' = ''1'', text' = ''hi'', createdAt = 1000, author = ''user'',
        channel = ''general'', important = False, tags = []\<rparr>"]
  have "\<exists>es1 args now es2 s1 tr1 s2.
         [Subscribe messageAdded_field, Call 7 [(''text'', StringValue ''hi'')] 1000,
          Next 0, Resume 0] = es1 @ Call 7 args now # es2
         \<and> run init_server es1 = (s1, tr1)
         \<and> step s1 (Call 7 args now) =
             (s2, [Published MESSAGE_ADDED
                     (messageAdded \<lparr>id' = ''1'', text' = ''hi'', createdAt = 1000,
                                    author = ''user'', channel = ''general'',
                                    important = False, tags = []\<rparr>)])
         \<and> pubsub s2 =
             publish MESSAGE_ADDED
               (messageAdded \<lparr>id' = ''1'', text' = ''hi'', createdAt = 1000,
                              author = ''user'', channel = ''general'', important = False,
                              tags = []\<rparr>) (pubsub s1)
         \<and> length tr1 < 3"
    by simp blast
  with r p show ?thesis by simp
qed

section \<open>Delivery order of a subscription\<close>

lemma delivered_to_append: "delivered_to h (a @ b) = delivered_to h a @ delivered_to h b"
  by (induction a rule: delivered_to.induct) simp_all

lemma published_on_append: "published_on T (a @ b) = published_on T a @ published_on T b"
  by (induction a rule: published_on.induct) simp_all

lemma map_of_deliver:
  "map_of (map (deliver T p) subs) h =
     map_option (\<lambda>(T', q). if T' = T then (T', q @ [p]) else (T', q)) (map_of subs h)"
  by (induction subs) (auto simp: deliver_def)

lemma pop_front:
  "map_of subs h = Some (T, p # q) \<Longrightarrow>
     fst (pop h subs) = Some p \<and> map_of (snd (pop h subs)) h = Some (T, q)"
  by (induction subs) (auto split: prod.splits)

lemma pop_empty:
  "map_of subs h = Some (T, []) \<or> map_of subs h = None \<Longrightarrow> pop h subs = (None, subs)"
  by (induction subs) (auto split: prod.splits)

lemma map_of_pop_other:
  "pop h' subs = (r, subs') \<Longrightarrow> h' \<noteq> h \<Longrightarrow> map_of subs' h = map_of subs h"
  by (induction subs arbitrary: r subs') (auto split: if_splits list.splits prod.splits)

lemma map_of_unsubscribe:
  "map_of (filter (\<lambda>sub. fst sub \<noteq> h') subs) h = (if h = h' then None else map_of subs h)"
  by (induction subs) auto

lemma fifo_inv_publish:
  "fifo_inv h T ps del pub \<Longrightarrow>
   fifo_inv h T (publish T' p ps) del (pub @ (if T' = T then [p] else []))"
  by (auto simp: fifo_inv_def publish_def map_of_deliver split: option.splits)

lemma fifo_inv_next_event:
  assumes "fifo_inv h T ps del pub" and "next_event h' ps = (r, ps')"
  shows "fifo_inv h T ps' (del @ (if h' = h then (case r of None \<Rightarrow> [] | Some p \<Rightarrow> [p]) else [])) pub"
proof -
  obtain subs' where p: "pop h' (subscriptions ps) = (r, subs')" and ps': "ps' = ps\<lparr>subscriptions := subs'\<rparr>"
    using assms(2) by (auto simp: next_event_def split: prod.splits)
  show ?thesis
  proof (cases "h' = h")
    case True
    show ?thesis
    proof (cases "map_of (subscriptions ps) h")
      case None
      with pop_empty [of "subscriptions ps" h] p True have "r = None" "subs' = subscriptions ps"
        by simp_all
      with assms(1) True show ?thesis by (simp add: fifo_inv_def ps')
    next
      case (Some v)
      obtain T' q where v: "v = (T', q)" by (cases v)
      show ?thesis
      proof (cases q)
        case Nil
        with pop_empty [of "subscriptions ps" h T'] p True Some v
        have "r = None" "subs' = subscriptions ps" by simp_all
        with assms(1) True show ?thesis by (simp add: fifo_inv_def ps')
      next
        case (Cons x q')
        with pop_front [of "subscriptions ps" h T' x q'] p True Some v
        have "r = Some x" "map_of subs' h = Some (T', q')" by simp_all
        with assms(1) True Some v Cons show ?thesis by (simp add: fifo_inv_def ps')
      qed
    qed
  next
    case False
    from map_of_pop_other [OF p False] assms(1) False show ?thesis
      by (auto simp: fifo_inv_def ps')
  qed
qed

lemma fifo_inv_unsubscribe:
  "fifo_inv h T ps del pub \<Longrightarrow> fifo_inv h T (unsubscribe h' ps) del pub"
  by (auto simp: fifo_inv_def unsubscribe_def map_of_unsubscribe split: option.splits)

lemma fifo_inv_asyncIterator:
  "fifo_inv h T ps del pub \<Longrightarrow> fifo_inv h T (snd (asyncIterator T' ps)) del pub"
  by (auto simp: fifo_inv_def asyncIterator_def split: option.splits)

lemma fifo_inv_step:
  assumes "fifo_inv h T (pubsub s) del pub" and "step s e = (s1, a1)"
  shows "fifo_inv h T (pubsub s1) (del @ delivered_to h a1) (pub @ published_on T a1)"
proof (cases e)
  case (Call rid i now)
  with assms fifo_inv_publish [OF assms(1), of MESSAGE_ADDED] show ?thesis
    by (cases "coerce_args i") (auto simp: sendMessage_def Let_def)
next
  case (Resume k)
  with assms show ?thesis by (auto split: if_splits prod.splits)
next
  case (TickMessage now)
  with assms fifo_inv_publish [OF assms(1), of MESSAGE_ADDED] show ?thesis
    by (auto simp: messageGenerator_def Let_def)
next
  case (TickStatus r now)
  with assms fifo_inv_publish [OF assms(1), of SYSTEM_STATUS_CHANGED] show ?thesis
    by (auto simp: statusGenerator_def Let_def)
next
  case (TickSettings r1 r2 now)
  with assms fifo_inv_publish [OF assms(1), of SETTINGS_UPDATED] show ?thesis
    by (auto simp: settingsGenerator_def Let_def)
next
  case (Subscribe f)
  with assms fifo_inv_asyncIterator [OF assms(1), of "trigger f"] show ?thesis
    by (auto simp: subscribe_def split: prod.splits)
next
  case (Next h')
  obtain r ps' where ne: "next_event h' (pubsub s) = (r, ps')" by (cases "next_event h' (pubsub s)")
  from fifo_inv_next_event [OF assms(1) ne] Next assms(2) ne show ?thesis
    by (auto split: option.splits)
next
  case (Complete h')
  with assms fifo_inv_unsubscribe [OF assms(1), of h'] show ?thesis by auto
qed

lemma fifo_inv_run:
  assumes "fifo_inv h T (pubsub s) del pub" and "run s es = (s', tr)"
  shows "fifo_inv h T (pubsub s') (del @ delivered_to h tr) (pub @ published_on T tr)"
  using assms
proof (induction es arbitrary: s s' tr del pub)
  case Nil
  then show ?case by simp
next
  case (Cons e es)
  obtain s1 a1 where st: "step s e = (s1, a1)" by (cases "step s e")
  obtain s2 a2 where rn: "run s1 es = (s2, a2)" by (cases "run s1 es")
  from Cons.prems(2) st rn have tr: "tr = a1 @ a2" and s': "s' = s2" by simp_all
  from Cons.IH [OF fifo_inv_step [OF Cons.prems(1) st] rn]
  show ?case by (simp add: tr s' delivered_to_append published_on_append)
qed

lemma fst_deliver: "fst (deliver T p sub) = fst sub"
  by (cases sub) (simp add: deliver_def)

lemma handles_below_publish: "handles_below (publish T p ps) = handles_below ps"
  by (simp add: handles_below_def publish_def fst_deliver)

lemma map_fst_pop: "map fst (snd (pop h subs)) = map fst subs"
  by (induction h subs rule: pop.induct) (auto split: list.splits prod.splits)

lemma fst_set_pop: "fst ` set (snd (pop h subs)) = fst ` set subs"
  using map_fst_pop [of h subs] by (metis set_map)

lemma handles_below_unsubscribe: "handles_below ps \<Longrightarrow> handles_below (unsubscribe h ps)"
  by (fastforce simp: handles_below_def unsubscribe_def)

lemma handles_below_asyncIterator:
  "handles_below ps \<Longrightarrow> handles_below (snd (asyncIterator T ps))"
  by (fastforce simp: handles_below_def asyncIterator_def)

lemma handles_below_next_event: "handles_below ps \<Longrightarrow> handles_below (snd (next_event h ps))"
proof -
  assume a: "handles_below ps"
  have "snd (next_event h ps) = ps\<lparr>subscriptions := snd (pop h (subscriptions ps))\<rparr>"
    by (simp add: next_event_def split: prod.splits)
  moreover have "\<forall>x \<in> fst ` set (snd (pop h (subscriptions ps))). x < nextHandle ps"
    using a unfolding fst_set_pop handles_below_def by auto
  ultimately show ?thesis by (simp add: handles_below_def)
qed

lemma handles_below_step:
  assumes "handles_below (pubsub s)" and "step s e = (s1, a1)"
  shows "handles_below (pubsub s1)"
proof (cases e)
  case (Call rid i now)
  with assms show ?thesis
    by (cases "coerce_args i") (auto simp: handles_below_publish sendMessage_def Let_def)
next
  case (Resume k)
  with assms show ?thesis by (auto split: if_splits prod.splits)
next
  case (TickMessage now)
  with assms show ?thesis
    by (auto simp: handles_below_publish messageGenerator_def Let_def)
next
  case (TickStatus r now)
  with assms show ?thesis
    by (auto simp: handles_below_publish statusGenerator_def Let_def)
next
  case (TickSettings r1 r2 now)
  with assms show ?thesis
    by (auto simp: handles_below_publish settingsGenerator_def Let_def)
next
  case (Subscribe f)
  with assms handles_below_asyncIterator [OF assms(1), of "trigger f"] show ?thesis
    by (auto simp: subscribe_def split: prod.splits)
next
  case (Next h')
  with assms handles_below_next_event [OF assms(1), of h'] show ?thesis
    by (auto split: option.splits prod.splits)
next
  case (Complete h')
  with assms handles_below_unsubscribe [OF assms(1), of h'] show ?thesis by auto
qed

lemma handles_below_run:
  "handles_below (pubsub s) \<Longrightarrow> run s es = (s', tr) \<Longrightarrow> handles_below (pubsub s')"
proof (induction es arbitrary: s s' tr)
  case Nil
  then show ?case by simp
next
  case (Cons e es)
  then show ?case
    by (auto split: prod.splits dest: handles_below_step)
qed

text \<open>
  Claim C6. A subscription started at any point of a run is handed the events
  published on its topic afterwards in the order of their publication: the events
  delivered to it so far are always an initial segment of those published on the topic
  since it subscribed, so of two publishes the earlier one is observed first.
\<close>

theorem subscription_fifo:
  assumes "run init_server es1 = (s1, tr1)"
    and "step s1 (Subscribe f) = (s2, [Subscribed h])"
    and "run s2 es2 = (s3, tr3)"
  shows "prefix (delivered_to h tr3) (published_on (trigger f) tr3)
       \<and> (\<forall>k < length (delivered_to h tr3).
             delivered_to h tr3 ! k = published_on (trigger f) tr3 ! k)"
proof -
  have "handles_below (pubsub init_server)"
    by (simp add: handles_below_def init_server_def)
  from handles_below_run [OF this assms(1)] have hb: "handles_below (pubsub s1)" .
  from assms(2) have h: "h = nextHandle (pubsub s1)"
    and s2: "pubsub s2 = snd (asyncIterator (trigger f) (pubsub s1))"
    by (auto simp: subscribe_def asyncIterator_def)
  from hb have "map_of (subscriptions (pubsub s1)) h = None"
    unfolding h handles_below_def by (force simp: map_of_eq_None_iff)
  then have "fifo_inv h (trigger f) (pubsub s2) [] []"
    by (simp add: fifo_inv_def s2 asyncIterator_def h map_add_def)
  from fifo_inv_run [OF this assms(3)]
  have "fifo_inv h (trigger f) (pubsub s3) (delivered_to h tr3) (published_on (trigger f) tr3)"
    by simp
  then have p: "prefix (delivered_to h tr3) (published_on (trigger f) tr3)"
    by (auto simp: fifo_inv_def split: option.splits intro: prefixI [OF sym])
  then show ?thesis by (auto simp: prefix_def nth_append)
qed

theorem subscription_fifo_witness:
  "step init_server (Subscribe messageAdded_field) =
     (\<lparr>idCounter = 1,
       pubsub = \<lparr>subscriptions = [(0, MESSAGE_ADDED, [])], nextHandle = 1\<rparr>,
       awaiting = []\<rparr>, [Subscribed 0])
   \<and> delivered_to 0
        (snd (run \<lparr>idCounter = 1,
                   pubsub = \<lparr>subscriptions = [(0, MESSAGE_ADDED, [])], nextHandle = 1\<rparr>,
                   awaiting = []\<rparr>
               [Call 7 [(''text'', StringValue ''hi'')] 1000,
                TickStatus (1 / 2) 1500,
                TickMessage 2000, Next 0, Next 0, Next 0])) =
       [messageAdded \<lparr>id' = ''1'', text' = ''hi'', createdAt = 1000, author = ''user'',
                      channel = ''general'', important = False, tags = []\<rparr>,
        messageAdded \<lparr>id' = ''2'', text' = ''Server message #3'', createdAt = 2000,
                      author = ''server'', channel = ''news'', important = False,
                      tags = [''auto'']\<rparr>]
   \<and> prefix
        (delivered_to 0
          (snd (run \<lparr>idCounter = 1,
                     pubsub = \<lparr>subscriptions = [(0, MESSAGE_ADDED, [])], nextHandle = 1\<rparr>,
                     awaiting = []\<rparr>
                 [Call 7 [(''text'', StringValue ''hi'')] 1000,
                  TickStatus (1 / 2) 1500,
                  TickMessage 2000, Next 0, Next 0, Next 0])))
        (published_on MESSAGE_ADDED
          (snd (run \<lparr>idCounter = 1,
                     pubsub = \<lparr>subscriptions = [(0, MESSAGE_ADDED, [])], nextHandle = 1\<rparr>,
                     awaiting = []\<rparr>
                 [Call 7 [(''text'', StringValue ''hi'')] 1000,
                  TickStatus (1 / 2) 1500,
                  TickMessage 2000, Next 0, Next 0, Next 0])))"
proof -
  have r1: "run init_server [] = (init_server, [])" by simp
  have r2: "step init_server (Subscribe messageAdded_field) =
     (\<lparr>idCounter = 1,
       pubsub = \<lparr>subscriptions = [(0, MESSAGE_ADDED, [])], nextHandle = 1\<rparr>,
       awaiting = []\<rparr>, [Subscribed 0])"
    by (simp add: ev)
  obtain s3 tr3 where r3: "run \<lparr>idCounter = 1,
                   pubsub = \<lparr>subscriptions = [(0, MESSAGE_ADDED, [])], nextHandle = 1\<rparr>,
                   awaiting = []\<rparr>
               [Call 7 [(''text'', StringValue ''hi'')] 1000,
                TickStatus (1 / 2) 1500,
                TickMessage 2000, Next 0, Next 0, Next 0] = (s3, tr3)"
    by (rule prod.exhaust)
  have d: "delivered_to 0 tr3 =
       [messageAdded \<lparr>id' = ''1'', text' = ''hi'', createdAt = 1000, author = ''user'',
                      channel = ''general'', important = False, tags = []\<rparr>,
        messageAdded \<lparr>id' = ''2'', text' = ''Server message #3'', createdAt = 2000,
                      author = ''server'', channel = ''news'', important = False,
                      tags = [''auto'']\<rparr>]"
    using r3 by (auto simp add: ev statusGenerator_def MESSAGE_ADDED_def SYSTEM_STATUS_CHANGED_def)
  from subscription_fifo [OF r1 r2 r3] d r2 r3
  show ?thesis by (simp add: trigger_def)
qed

section \<open>\<^verbatim>\<open>toFixed\<close> and \<^verbatim>\<open>Number\<close>\<close>

text \<open>
  \<^verbatim>\<open>Number(x.toFixed(2))\<close> for a non-negative \<open>x\<close>: the string has digits, a point and
  two digits, and reading it back gives the double nearest to the hundredths that
  \<open>x\<close> was rounded to.
\<close>

lemma is_digit_not_point: "is_digit c \<Longrightarrow> c \<noteq> CHR ''.''"
  by (auto simp: is_digit_def)

lemma is_digit_not_minus: "is_digit c \<Longrightarrow> c \<noteq> CHR ''-''"
  by (auto simp: is_digit_def)

lemma digits_val_append: "digits_val (a @ b) = digits_val a * 10 ^ length b + digits_val b"
proof (induction b rule: rev_induct)
  case Nil
  show ?case by (simp add: digits_val_def)
next
  case (snoc c b)
  have "digits_val (a @ b @ [c]) = 10 * digits_val (a @ b) + digit_val c"
    using digits_val_snoc [of "a @ b" c] by simp
  then show ?case by (simp add: snoc.IH digits_val_snoc algebra_simps)
qed

lemma digits_val_zeros: "digits_val (replicate k (CHR ''0'')) = 0"
proof (induction k)
  case 0
  show ?case by (simp add: digits_val_def)
next
  case (Suc k)
  have "replicate (Suc k) (CHR ''0'') = replicate k (CHR ''0'') @ [CHR ''0'']"
    by (simp add: replicate_append_same)
  then show ?case by (simp only: digits_val_snoc Suc.IH) (simp add: digit_val_def)
qed

lemma digits_val_pad: "digits_val (replicate k (CHR ''0'') @ m) = digits_val m"
  by (simp add: digits_val_append digits_val_zeros)

lemma is_digit_zero: "is_digit (CHR ''0'')"
  by (simp add: is_digit_def)

lemma decimal_val_point:
  assumes "a \<noteq> []" "list_all is_digit a" "b \<noteq> []" "list_all is_digit b"
  shows "decimal_val (a @ ''.'' @ b) =
           Some (of_nat (digits_val a) + of_nat (digits_val b) / 10 ^ length b)"
proof -
  have np: "\<forall>c \<in> set a. c \<noteq> CHR ''.''"
    using assms(2) by (auto simp: list_all_iff is_digit_not_point)
  have t: "takeWhile (\<lambda>c. c \<noteq> CHR ''.'') (a @ ''.'' @ b) = a"
    using np by (simp add: takeWhile_append2)
  have d: "dropWhile (\<lambda>c. c \<noteq> CHR ''.'') (a @ ''.'' @ b) = ''.'' @ b"
    using np by (simp add: dropWhile_append2)
  show ?thesis
    unfolding decimal_val_def t d using assms by (simp add: parse_digits_def)
qed

lemma Number_str_point:
  assumes "a \<noteq> []" "list_all is_digit a" "b \<noteq> []" "list_all is_digit b"
  shows "Number_str (a @ ''.'' @ b) =
           Some (fl (of_nat (digits_val a) + of_nat (digits_val b) / 10 ^ length b))"
proof -
  obtain c a' where a: "a = c # a'" using assms(1) by (cases a) auto
  with assms(2) have "c \<noteq> CHR ''-''" by (simp add: is_digit_not_minus)
  then have "Number_str (a @ ''.'' @ b) = map_option fl (decimal_val (a @ ''.'' @ b))"
    by (simp add: Number_str_def a)
  then show ?thesis using decimal_val_point [OF assms] by simp
qed

lemma Number_str_toFixed2:
  assumes "0 \<le> x"
  shows "Number_str (toFixed 2 x) = Some (fl (of_nat (nat \<lfloor>x * 100 + 1 / 2\<rfloor>) / 100))"
proof -
  define n where "n = nat \<lfloor>x * 100 + 1 / 2\<rfloor>"
  define m0 where "m0 = String_num n"
  define m where "m = (if length m0 \<le> 2 then replicate (3 - length m0) (CHR ''0'') @ m0 else m0)"
  define a where "a = take (length m - 2) m"
  define b where "b = drop (length m - 2) m"
  have m0: "m0 \<noteq> []" "list_all is_digit m0" "digits_val m0 = n"
    by (simp_all add: m0_def String_num_not_Nil String_num_digits digits_val_String_num)
  have len: "3 \<le> length m" using m0(1) by (auto simp: m_def)
  have dig: "list_all is_digit m" using m0(2) by (auto simp: m_def list_all_iff is_digit_zero)
  have val: "digits_val m = n" using m0(3) by (simp add: m_def digits_val_pad)
  have ab: "m = a @ b" by (simp add: a_def b_def)
  have lb: "length b = 2" using len by (simp add: b_def)
  have la: "a \<noteq> []" using len by (auto simp: a_def)
  have da: "list_all is_digit a" and db: "list_all is_digit b"
    using dig unfolding ab by simp_all
  have bn: "b \<noteq> []" using lb by auto
  have tf: "toFixed 2 x = a @ ''.'' @ b"
    using assms by (simp add: toFixed_def Let_def a_def b_def m_def m0_def n_def)
  have "n = digits_val a * 100 + digits_val b"
    using val by (simp add: ab digits_val_append lb)
  then have "(of_nat n :: rat) = of_nat (digits_val a) * 100 + of_nat (digits_val b)"
    by simp
  then have e: "of_nat (digits_val a) + of_nat (digits_val b) / 10 ^ length b = (of_nat n :: rat) / 100"
    by (simp add: lb)
  have "Number_str (toFixed 2 x) = Some (fl (of_nat n / 100))"
    unfolding tf e [symmetric] by (rule Number_str_point [OF la da bn db])
  then show ?thesis by (simp add: n_def)
qed

section \<open>The status generator\<close>

lemma fl_error_small:
  assumes "\<bar>x\<bar> \<le> 7"
  shows "\<bar>fl x - x\<bar> \<le> 1 / 10 ^ 15"
proof -
  have "(\<bar>x\<bar> + 1) / 2 ^ 53 \<le> 8 / 2 ^ 53"
    using assms by (simp add: divide_right_mono)
  also have "\<dots> \<le> 1 / 10 ^ 15" by simp
  finally show ?thesis using fl_error [of x] by linarith
qed

lemma random_scaled_range:
  assumes "0 \<le> r" and "r < 1"
  defines "x \<equiv> fl (fl (r * fl (15 / 10)) + fl (1 / 10))"
  shows "99 / 1000 \<le> x \<and> x < 1601 / 1000"
proof -
  define c where "c = fl (15 / 10)"
  define y1 where "y1 = r * c"
  define d where "d = fl (1 / 10)"
  define y2 where "y2 = fl y1 + d"
  define eps :: rat where "eps = 1 / 10 ^ 15"
  have eps: "0 < eps" "eps < 1 / 1000000" by (simp_all add: eps_def)
  have e1: "\<bar>c - 15 / 10\<bar> \<le> eps"
    using fl_error_small [of "15 / 10"] by (simp add: c_def eps_def)
  have c0: "0 \<le> c" using e1 eps by linarith
  have c1: "c \<le> 16 / 10" using e1 eps by linarith
  have y0: "0 \<le> y1" using assms(1) c0 by (simp add: y1_def)
  have yc: "y1 \<le> c" using assms c0 by (simp add: y1_def mult_left_le_one_le)
  have "\<bar>y1\<bar> \<le> 7" using y0 yc c1 by linarith
  from fl_error_small [OF this] have e2: "\<bar>fl y1 - y1\<bar> \<le> eps" by (simp add: eps_def)
  have e3: "\<bar>d - 1 / 10\<bar> \<le> eps"
    using fl_error_small [of "1 / 10"] by (simp add: d_def eps_def)
  have y2l: "999 / 10000 \<le> y2"
    unfolding y2_def using e1 e2 e3 y0 yc eps by linarith
  have y2u: "y2 \<le> 16001 / 10000"
    unfolding y2_def using e1 e2 e3 y0 yc eps by linarith
  have "\<bar>y2\<bar> \<le> 7" using y2l y2u by linarith
  from fl_error_small [OF this] have e4: "\<bar>fl y2 - y2\<bar> \<le> eps" by (simp add: eps_def)
  have "x = fl y2" by (simp add: x_def y2_def y1_def c_def d_def)
  then show ?thesis using e4 y2l y2u eps by linarith
qed

lemma hundredths_range:
  assumes "99 / 1000 \<le> (x::rat)" and "x < 1601 / 1000"
  shows "10 \<le> nat \<lfloor>x * 100 + 1 / 2\<rfloor> \<and> nat \<lfloor>x * 100 + 1 / 2\<rfloor> \<le> 160
       \<and> \<bar>of_nat (nat \<lfloor>x * 100 + 1 / 2\<rfloor>) / 100 - x\<bar> \<le> 1 / 200"
proof -
  define z where "z = x * 100 + 1 / 2"
  have z: "10 \<le> z" "z < 161" using assms by (simp_all add: z_def)
  have f: "10 \<le> \<lfloor>z\<rfloor>" "\<lfloor>z\<rfloor> \<le> 160"
    using z by (simp_all add: le_floor_iff floor_le_iff)
  have fz: "of_int \<lfloor>z\<rfloor> \<le> z" "z < of_int \<lfloor>z\<rfloor> + 1" by linarith+
  have n: "(of_nat (nat \<lfloor>z\<rfloor>) :: rat) = of_int \<lfloor>z\<rfloor>" using f by simp
  have zx: "z = x * 100 + 1 / 2" by (simp add: z_def)
  have a: "of_int \<lfloor>z\<rfloor> / 100 - x \<le> 1 / 200" using fz(1) zx by linarith
  have b: "- (1 / 200) \<le> of_int \<lfloor>z\<rfloor> / 100 - x" using fz(2) zx by linarith
  have "\<bar>of_int \<lfloor>z\<rfloor> / 100 - x\<bar> \<le> 1 / 200"
    using a b by (rule abs_leI [OF _ iffD1 [OF minus_le_iff]]) 
  then have n3: "\<bar>of_nat (nat \<lfloor>z\<rfloor>) / 100 - x\<bar> \<le> 1 / 200" by (simp only: n)
  have n1: "10 \<le> nat \<lfloor>z\<rfloor>" using f(1) by linarith
  have n2: "nat \<lfloor>z\<rfloor> \<le> 160" using f(2) by linarith
  from n1 n2 n3 show ?thesis unfolding zx by blast
qed

lemma load_in_interval:
  assumes "10 \<le> n" and "n \<le> (160::nat)"
  shows "fl (1 / 10) \<le> fl (of_nat n / 100) \<and> fl (of_nat n / 100) \<le> fl (16 / 10)"
proof -
  define eps :: rat where "eps = 1 / 10 ^ 15"
  have eps: "0 < eps" "eps < 1 / 1000000" by (simp_all add: eps_def)
  have lo: "\<bar>fl (1 / 10) - 1 / 10\<bar> \<le> eps"
    using fl_error_small [of "1 / 10"] by (simp add: eps_def)
  have hi: "\<bar>fl (16 / 10) - 16 / 10\<bar> \<le> eps"
    using fl_error_small [of "16 / 10"] by (simp add: eps_def)
  have nn: "(10::rat) \<le> of_nat n" "of_nat n \<le> (160::rat)" using assms by simp_all
  then have "\<bar>of_nat n / 100 :: rat\<bar> \<le> 7" by simp
  from fl_error_small [OF this] have mid: "\<bar>fl (of_nat n / 100) - of_nat n / 100\<bar> \<le> eps"
    by (simp add: eps_def)
  have 1: "fl (1 / 10) \<le> fl (of_nat n / 100)"
  proof (cases "n = 10")
    case True
    then show ?thesis by simp
  next
    case False
    with assms have "(11::rat) \<le> of_nat n" by simp
    then have "(11::rat) / 100 \<le> of_nat n / 100" by simp
    with lo mid eps show ?thesis by linarith
  qed
  have 2: "fl (of_nat n / 100) \<le> fl (16 / 10)"
  proof (cases "n = 160")
    case True
    then show ?thesis by simp
  next
    case False
    with assms have "of_nat n \<le> (159::rat)" by simp
    then have "of_nat n / 100 \<le> (159::rat) / 100" by simp
    with hi mid eps show ?thesis by linarith
  qed
  from 1 2 show ?thesis ..
qed

text \<open>
  Claim C5. Every tick of the status generator publishes one \<^verbatim>\<open>SystemStatus\<close> with
  \<^verbatim>\<open>online\<close> true, whose \<^verbatim>\<open>load\<close> is a number with two decimals between 0.10 and
  1.60: for every value \<open>r\<close> of \<^verbatim>\<open>Math.random()\<close> in \<open>[0, 1)\<close>, \<^verbatim>\<open>toFixed(2)\<close> rounds
  the double \<open>x\<close> computed for \<^verbatim>\<open>r * 1.5 + 0.1\<close> to \<open>n\<close> hundredths with
  \<open>10 \<le> n \<le> 160\<close>, and \<^verbatim>\<open>load\<close> is the double of \<open>n / 100\<close>, which lies between the
  doubles of the literals \<^verbatim>\<open>0.1\<close> and \<^verbatim>\<open>1.6\<close>, both ends included.
\<close>

theorem statusGenerator_load_in_range:
  assumes "0 \<le> r" and "r < 1"
  shows "let st = fst (statusGenerator r now s);
             x = fl (fl (r * fl (15 / 10)) + fl (1 / 10));
             n = nat \<lfloor>x * 100 + 1 / 2\<rfloor>
         in step s (TickStatus r now) =
              (s\<lparr>pubsub := publish SYSTEM_STATUS_CHANGED (systemStatusChanged st) (pubsub s)\<rparr>,
               [Published SYSTEM_STATUS_CHANGED (systemStatusChanged st)])
            \<and> online st = True
            \<and> load st = Some (fl (of_nat n / 100))
            \<and> 10 \<le> n \<and> n \<le> 160
            \<and> \<bar>of_nat n / 100 - x\<bar> \<le> 1 / 200
            \<and> fl (1 / 10) \<le> fl (of_nat n / 100) \<and> fl (of_nat n / 100) \<le> fl (16 / 10)"
proof -
  define x where "x = fl (fl (r * fl (15 / 10)) + fl (1 / 10))"
  define n where "n = nat \<lfloor>x * 100 + 1 / 2\<rfloor>"
  from random_scaled_range [OF assms] have xr: "99 / 1000 \<le> x" "x < 1601 / 1000"
    by (simp_all add: x_def)
  then have x0: "0 \<le> x" by linarith
  from hundredths_range [OF xr]
  have nr: "10 \<le> n" "n \<le> 160" "\<bar>of_nat n / 100 - x\<bar> \<le> 1 / 200" by (simp_all add: n_def)
  have ld: "load (fst (statusGenerator r now s)) = Some (fl (of_nat n / 100))"
    using Number_str_toFixed2 [OF x0] by (simp add: statusGenerator_def Let_def x_def n_def)
  have on: "online (fst (statusGenerator r now s)) = True"
    by (simp add: statusGenerator_def Let_def)
  have st: "step s (TickStatus r now) =
      (s\<lparr>pubsub := publish SYSTEM_STATUS_CHANGED
                      (systemStatusChanged (fst (statusGenerator r now s))) (pubsub s)\<rparr>,
       [Published SYSTEM_STATUS_CHANGED (systemStatusChanged (fst (statusGenerator r now s)))])"
    by (simp add: statusGenerator_def Let_def)
  from load_in_interval [OF nr(1,2)] st on ld nr show ?thesis
    unfolding Let_def x_def [symmetric] n_def [symmetric] by simp
qed

theorem statusGenerator_load_in_range_witness:
  "(0::rat) \<le> 1 / 2 \<and> (1::rat) / 2 < 1
   \<and> load (fst (statusGenerator (1 / 2) 0 init_server)) = Some (fl (85 / 100))
   \<and> fl (1 / 10) \<le> fl (85 / 100) \<and> fl (85 / 100) \<le> fl (16 / 10)"
proof -
  have n: "nat \<lfloor>fl (fl (1 / 2 * fl (15 / 10)) + fl (1 / 10)) * 100 + 1 / 2\<rfloor> = 85"
    by code_simp
  have h: "(0::rat) \<le> 1 / 2" "(1::rat) / 2 < 1" by simp_all
  from statusGenerator_load_in_range [OF h, of 0 init_server, unfolded Let_def n]
  show ?thesis by simp
qed

end
